theory Spec2Isabelle
  imports Main
begin

section \<open>The map/reduce engine of influxql (engine.go)\<close>

text \<open>
  A shallow embedding of \<^verbatim>\<open>src/influxql/engine.go\<close>. Every effect the engine has on
  its collaborators is written to an event log: a call of a method of the Mapper interface,
  a send on the output channel, the closing of that channel. The mappers themselves are
  arbitrary: each method is a function on a world state \<open>'w\<close> that the storage layer owns.
  A Go runtime panic is a value of its own, together with the state in which it was raised,
  so a crash is never mistaken for a return.
\<close>

subsection \<open>Values, errors, panics\<close>

text \<open>Go's \<^verbatim>\<open>error\<close> interface; \<^verbatim>\<open>nil\<close> is \<open>None\<close> of \<open>error option\<close>.\<close>

datatype error = Error string

text \<open>The runtime panics the engine's own statements can raise.\<close>

datatype panic =
    IndexOutOfRange        \<comment> \<open>\<^verbatim>\<open>xs[i]\<close> with \<^verbatim>\<open>i >= len(xs)\<close>\<close>
  | MakeSliceLen           \<comment> \<open>\<^verbatim>\<open>make([]T, n)\<close> with \<^verbatim>\<open>n\<close> out of range\<close>
  | NilFuncCall            \<comment> \<open>calling a nil \<^verbatim>\<open>ReduceFunc\<close>\<close>
  | InterfaceConversion    \<comment> \<open>a failed single-valued type assertion \<^verbatim>\<open>x.(T)\<close>\<close>

text \<open>
  The dynamic values (\<^verbatim>\<open>interface{}\<close>) that travel through the engine.
  \<open>VTime t\<close> is \<^verbatim>\<open>time.Unix(0, t).UTC()\<close>; \<open>VRaw\<close> is a \<^verbatim>\<open>[]*rawQueryMapOutput\<close>,
  each record a timestamp and its \<^verbatim>\<open>values\<close>; \<open>VFields\<close> is a
  \<^verbatim>\<open>map[string]interface{}\<close>; \<open>VNil\<close> is the nil interface.
\<close>

datatype val =
    VNil
  | VTime int
  | VNum int
  | VStr string
  | VFields "(string \<times> val) list"
  | VRaw "(int \<times> val) list"

type_synonym ReduceFunc = "val list \<Rightarrow> val"

subsection \<open>int64 arithmetic\<close>

text \<open>
  \<^verbatim>\<open>int64\<close> values are integers in \<open>[-2^63, 2^63)\<close>; every operation wraps around.
  Go's \<^verbatim>\<open>/\<close> truncates towards zero.
\<close>

definition in_int64 :: "int \<Rightarrow> bool" where
  "in_int64 x \<longleftrightarrow> - (2 ^ 63) \<le> x \<and> x < 2 ^ 63"

definition wrap64 :: "int \<Rightarrow> int" where
  "wrap64 x = (x + 2 ^ 63) mod 2 ^ 64 - 2 ^ 63"

definition add64 :: "int \<Rightarrow> int \<Rightarrow> int" where
  "add64 a b = wrap64 (a + b)"

definition sub64 :: "int \<Rightarrow> int \<Rightarrow> int" where
  "sub64 a b = wrap64 (a - b)"

definition mul64 :: "int \<Rightarrow> int \<Rightarrow> int" where
  "mul64 a b = wrap64 (a * b)"

text \<open>Only used with a divisor that the code has checked to be non-zero.\<close>

definition quo64 :: "int \<Rightarrow> int \<Rightarrow> int" where
  "quo64 a b = wrap64 (sgn a * sgn b * (\<bar>a\<bar> div \<bar>b\<bar>))"

subsection \<open>The data model\<close>

text \<open>\<^verbatim>\<open>Call\<close> (declared in the parser): the engine reads its \<^verbatim>\<open>Name\<close> only.\<close>

record Call =
  Call_Name :: string
  Call_Args :: "string list"

text \<open>
  \<^verbatim>\<open>SelectStatement\<close> (declared in the parser): the engine reads the results of
  \<^verbatim>\<open>AggregateCalls()\<close> and \<^verbatim>\<open>NamesInSelect()\<close>, and \<^verbatim>\<open>Plan\<close> rewrites
  \<^verbatim>\<open>Condition\<close>.
\<close>

record SelectStatement =
  AggregateCalls :: "Call list"
  NamesInSelect :: "string list"
  Condition :: string

record TagSet =
  TagSet_Tags :: "string \<rightharpoonup> string"
  TagSet_Filters :: "string list"
  TagSet_SeriesIDs :: "nat list"
  TagSet_Key :: string

record Row =
  Name :: string
  Tags :: "string \<rightharpoonup> string"
  Columns :: "string list"
  Values :: "val list list"
  Err :: "error option"

text \<open>The zero value of \<^verbatim>\<open>Row\<close>: what a composite literal leaves in the fields it omits.\<close>

definition Row_zero :: Row where
  "Row_zero = \<lparr>Name = [], Tags = Map.empty, Columns = [], Values = [], Err = None\<rparr>"

text \<open>
  The Mapper interface. \<open>mid\<close> is the identity of the object; the methods are the
  storage layer's, on its own state. \<^verbatim>\<open>NextInterval\<close> returns both of Go's results.
  Every method returns: a mapper that is nil, blocks or panics is outside the model, and
  so is a reducer that panics.
\<close>

record 'w Mapper =
  mid :: nat
  Mapper_Open :: "'w \<Rightarrow> error option \<times> 'w"
  Mapper_Close :: "'w \<Rightarrow> 'w"
  Mapper_Begin :: "Call option \<Rightarrow> int \<Rightarrow> 'w \<Rightarrow> error option \<times> 'w"
  Mapper_NextInterval :: "int \<Rightarrow> 'w \<Rightarrow> (val \<times> error option) \<times> 'w"

text \<open>
  The fields of the job; the pointers \<^verbatim>\<open>TagSet\<close> and \<^verbatim>\<open>stmt\<close> are not nil (the
  transaction sets the one, \<^verbatim>\<open>Plan\<close> the other). \<open>key\<close> is the cache of \<^verbatim>\<open>Key()\<close>.
\<close>

record 'w MapReduceJob =
  MeasurementName :: string
  TagSet :: TagSet
  Mappers :: "'w Mapper list"
  TMin :: int
  TMax :: int
  key :: "string option"
  interval :: int
  stmt :: SelectStatement

subsection \<open>Effects\<close>

text \<open>
  The log names the mapper by its \<open>mid\<close>. A call of \<^verbatim>\<open>Begin\<close> or of
  \<^verbatim>\<open>NextInterval\<close> is logged with its arguments and with the error it returned.
\<close>

datatype event =
    EvOpen nat
  | EvClose nat
  | EvBegin nat "Call option" int "error option"
  | EvNextInterval nat int "error option"
  | EvSend Row
  | EvCloseOut

text \<open>The state the engine runs in: the storage layer's world and the log of events.\<close>

type_synonym 'w st = "'w \<times> event list"

definition call_Open :: "'w Mapper \<Rightarrow> 'w st \<Rightarrow> error option \<times> 'w st" where
  "call_Open mm s =
     (case Mapper_Open mm (fst s) of (err, w') \<Rightarrow> (err, (w', snd s @ [EvOpen (mid mm)])))"

definition call_Close :: "'w Mapper \<Rightarrow> 'w st \<Rightarrow> 'w st" where
  "call_Close mm s = (Mapper_Close mm (fst s), snd s @ [EvClose (mid mm)])"

definition call_Begin :: "'w Mapper \<Rightarrow> Call option \<Rightarrow> int \<Rightarrow> 'w st \<Rightarrow> error option \<times> 'w st" where
  "call_Begin mm c t s =
     (case Mapper_Begin mm c t (fst s) of
        (err, w') \<Rightarrow> (err, (w', snd s @ [EvBegin (mid mm) c t err])))"

definition call_NextInterval :: "'w Mapper \<Rightarrow> int \<Rightarrow> 'w st \<Rightarrow> (val \<times> error option) \<times> 'w st" where
  "call_NextInterval mm i s =
     (case Mapper_NextInterval mm i (fst s) of
        (r, w') \<Rightarrow> (r, (w', snd s @ [EvNextInterval (mid mm) i (snd r)])))"

definition send :: "Row \<Rightarrow> 'w st \<Rightarrow> 'w st" where
  "send r s = (fst s, snd s @ [EvSend r])"

definition close_out :: "'w st \<Rightarrow> 'w st" where
  "close_out s = (fst s, snd s @ [EvCloseOut])"

text \<open>The rows sent on the channel, in the order of the sends.\<close>

fun sent :: "event list \<Rightarrow> Row list" where
  "sent [] = []"
| "sent (EvSend r # es) = r # sent es"
| "sent (_ # es) = sent es"

subsection \<open>MapReduceJob.Open and MapReduceJob.Close\<close>

text \<open>\<^verbatim>\<open>for _, mm := range m.Mappers { mm.Close() }\<close>\<close>

fun Close_loop :: "'w Mapper list \<Rightarrow> 'w st \<Rightarrow> 'w st" where
  "Close_loop [] s = s"
| "Close_loop (mm # ms) s = Close_loop ms (call_Close mm s)"

definition Close :: "'w MapReduceJob \<Rightarrow> 'w st \<Rightarrow> 'w st" where
  "Close m s = Close_loop (Mappers m) s"

text \<open>
  The loop of \<^verbatim>\<open>Open\<close> over the mappers still to open; on the first error the job
  \<open>m\<close> is closed (all of its mappers) and the error returned.
\<close>

fun Open_loop :: "'w MapReduceJob \<Rightarrow> 'w Mapper list \<Rightarrow> 'w st \<Rightarrow> error option \<times> 'w st" where
  "Open_loop m [] s = (None, s)"
| "Open_loop m (mm # ms) s =
     (case call_Open mm s of
        (Some err, s') \<Rightarrow> (Some err, Close m s')
      | (None, s') \<Rightarrow> Open_loop m ms s')"

definition Open :: "'w MapReduceJob \<Rightarrow> 'w st \<Rightarrow> error option \<times> 'w st" where
  "Open m s = Open_loop m (Mappers m) s"

subsection \<open>MapReduceJob.processAggregate\<close>

text \<open>\<^verbatim>\<open>for _, mm := range m.Mappers { if err := mm.Begin(c, m.TMin); err != nil { return err } }\<close>\<close>

fun Begin_loop :: "'w Mapper list \<Rightarrow> Call option \<Rightarrow> int \<Rightarrow> 'w st \<Rightarrow> error option \<times> 'w st" where
  "Begin_loop [] c t s = (None, s)"
| "Begin_loop (mm # ms) c t s =
     (case call_Begin mm c t s of
        (Some err, s') \<Rightarrow> (Some err, s')
      | (None, s') \<Rightarrow> Begin_loop ms c t s')"

text \<open>
  The inner loop over the mappers for one bucket: every mapper is advanced by one
  interval and its result stored in \<^verbatim>\<open>mapperOutputs[j]\<close>; the first error returns.
\<close>

fun NextInterval_loop :: "'w Mapper list \<Rightarrow> int \<Rightarrow> 'w st \<Rightarrow> (error + val list) \<times> 'w st" where
  "NextInterval_loop [] iv s = (Inr [], s)"
| "NextInterval_loop (mm # ms) iv s =
     (case call_NextInterval mm iv s of
        ((res, Some err), s') \<Rightarrow> (Inl err, s')
      | ((res, None), s') \<Rightarrow>
          (case NextInterval_loop ms iv s' of
             (Inl e, s'') \<Rightarrow> (Inl e, s'')
           | (Inr outs, s'') \<Rightarrow> (Inr (res # outs), s'')))"

text \<open>
  The outer loop over the buckets of \<^verbatim>\<open>resultValues\<close>: the reducer's value is
  appended to the bucket. Calling a nil reducer panics, once the mappers of the bucket
  have been advanced.
\<close>

fun bucket_loop ::
  "'w Mapper list \<Rightarrow> int \<Rightarrow> ReduceFunc option \<Rightarrow> val list list \<Rightarrow> 'w st \<Rightarrow>
     (panic \<times> 'w st) + ((error + val list list) \<times> 'w st)" where
  "bucket_loop ms iv rf [] s = Inr (Inr [], s)"
| "bucket_loop ms iv rf (rv # rvs) s =
     (case NextInterval_loop ms iv s of
        (Inl err, s') \<Rightarrow> Inr (Inl err, s')
      | (Inr outs, s') \<Rightarrow>
          (case rf of
             None \<Rightarrow> Inl (NilFuncCall, s')
           | Some f \<Rightarrow>
               (case bucket_loop ms iv rf rvs s' of
                  Inl p \<Rightarrow> Inl p
                | Inr (Inl err, s'') \<Rightarrow> Inr (Inl err, s'')
                | Inr (Inr rvs', s'') \<Rightarrow> Inr (Inr ((rv @ [f outs]) # rvs'), s''))))"

definition processAggregate ::
  "'w MapReduceJob \<Rightarrow> Call option \<Rightarrow> ReduceFunc option \<Rightarrow> val list list \<Rightarrow> 'w st \<Rightarrow>
     (panic \<times> 'w st) + ((error + val list list) \<times> 'w st)" where
  "processAggregate m c reduceFunc resultValues s =
     (case Begin_loop (Mappers m) c (TMin m) s of
        (Some err, s') \<Rightarrow> Inr (Inl err, s')
      | (None, s') \<Rightarrow> bucket_loop (Mappers m) (interval m) reduceFunc resultValues s')"

subsection \<open>MapReduceJob.processRawResults\<close>

text \<open>\<^verbatim>\<open>fields[n]\<close> on a Go map: the zero value (nil) for a missing key.\<close>

definition field_lookup :: "(string \<times> val) list \<Rightarrow> string \<Rightarrow> val" where
  "field_lookup fs n = (case map_of fs n of None \<Rightarrow> VNil | Some v \<Rightarrow> v)"

text \<open>
  One record of the raw mapper output becomes one value row. A type assertion \<^verbatim>\<open>x.(T)\<close>
  asserts that \<^verbatim>\<open>x\<close> is not nil and that its value is of type \<^verbatim>\<open>T\<close>, and panics
  otherwise: \<^verbatim>\<open>v.values.(interface{})\<close> panics on the nil interface,
  \<^verbatim>\<open>v.values.(map[string]interface{})\<close> on anything but a map. The records themselves
  are not nil pointers.
\<close>

definition raw_vals :: "string list \<Rightarrow> bool \<Rightarrow> int \<times> val \<Rightarrow> panic + val list" where
  "raw_vals selectNames singleValue v =
     (if singleValue then
        (case snd v of
           VNil \<Rightarrow> Inl InterfaceConversion
         | payload \<Rightarrow> Inr [VTime (fst v), payload])
      else
        (case snd v of
           VFields fs \<Rightarrow>
             Inr (map (\<lambda>n. if n = ''time'' then VTime (fst v) else field_lookup fs n) selectNames)
         | _ \<Rightarrow> Inl InterfaceConversion))"

fun raw_loop :: "string list \<Rightarrow> bool \<Rightarrow> (int \<times> val) list \<Rightarrow> val list list \<Rightarrow> panic + val list list" where
  "raw_loop selectNames singleValue [] acc = Inr acc"
| "raw_loop selectNames singleValue (v # vs) acc =
     (case raw_vals selectNames singleValue v of
        Inl p \<Rightarrow> Inl p
      | Inr vals \<Rightarrow> raw_loop selectNames singleValue vs (acc @ [vals]))"

text \<open>
  The guard of the empty result evaluates \<^verbatim>\<open>len(resultValues[0])\<close> as an argument of
  \<^verbatim>\<open>warn\<close> before it returns the row: an index out of range when there is no bucket.
\<close>

definition processRawResults :: "'w MapReduceJob \<Rightarrow> val list list \<Rightarrow> panic + Row" where
  "processRawResults m resultValues =
     (let selectNames0 = NamesInSelect (stmt m);
          hasTime = (''time'' \<in> set selectNames0);
          selectNames = (if \<not> hasTime then ''time'' # selectNames0 else selectNames0);
          singleValue = (length selectNames = 2);
          row = \<lparr>Name = MeasurementName m, Tags = TagSet_Tags (TagSet m),
                 Columns = selectNames, Values = [], Err = None\<rparr>
      in if length resultValues = 0 \<or> length (hd resultValues) \<noteq> 2 then
           (if length resultValues = 0 then Inl IndexOutOfRange else Inr row)
         else
           (case hd resultValues ! 1 of
              VRaw recs \<Rightarrow>
                (case raw_loop selectNames singleValue recs [] of
                   Inl p \<Rightarrow> Inl p
                 | Inr vs \<Rightarrow> Inr (row\<lparr>Values := vs\<rparr>))
            | _ \<Rightarrow> Inl InterfaceConversion))"

subsection \<open>MapReduceJob.Execute\<close>

text \<open>
  \<^verbatim>\<open>InitializeReduceFunc\<close> is the reducer registry's; the engine is given it as \<open>irf\<close>,
  with both of its results (a nil \<^verbatim>\<open>ReduceFunc\<close> is \<open>None\<close>).
\<close>

type_synonym registry = "Call option \<Rightarrow> ReduceFunc option \<times> error option"

fun init_loop :: "registry \<Rightarrow> Call list \<Rightarrow> error + ReduceFunc option list" where
  "init_loop irf [] = Inr []"
| "init_loop irf (c # cs) =
     (case irf (Some c) of
        (reduceFunc, Some err) \<Rightarrow> Inl err
      | (reduceFunc, None) \<Rightarrow>
          (case init_loop irf cs of
             Inl err \<Rightarrow> Inl err
           | Inr rfs \<Rightarrow> Inr (reduceFunc # rfs)))"

text \<open>\<^verbatim>\<open>for i, c := range aggregates { m.processAggregate(c, reduceFuncs[i], resultValues) }\<close>\<close>

fun aggregates_loop ::
  "'w MapReduceJob \<Rightarrow> (Call option \<times> ReduceFunc option) list \<Rightarrow> val list list \<Rightarrow> 'w st \<Rightarrow>
     (panic \<times> 'w st) + ((error + val list list) \<times> 'w st)" where
  "aggregates_loop m [] resultValues s = Inr (Inr resultValues, s)"
| "aggregates_loop m ((c, rf) # cs) resultValues s =
     (case processAggregate m c rf resultValues s of
        Inl p \<Rightarrow> Inl p
      | Inr (Inl err, s') \<Rightarrow> Inr (Inl err, s')
      | Inr (Inr resultValues', s') \<Rightarrow> aggregates_loop m cs resultValues' s')"

text \<open>The single-bucket test of \<^verbatim>\<open>Execute\<close>.\<close>

definition single_bucket :: "'w MapReduceJob \<Rightarrow> bool" where
  "single_bucket m \<longleftrightarrow> TMin m = 0 \<or> interval m = 0 \<or> AggregateCalls (stmt m) = []"

text \<open>The interval the job runs with: \<^verbatim>\<open>m.interval\<close> after the bucket arithmetic.\<close>

definition effective_interval :: "'w MapReduceJob \<Rightarrow> int" where
  "effective_interval m = (if single_bucket m then sub64 (TMax m) (TMin m) else interval m)"

definition pointCountInResult :: "'w MapReduceJob \<Rightarrow> int" where
  "pointCountInResult m =
     (if single_bucket m then 1
      else
        (let intervalTop = add64 (mul64 (quo64 (TMax m) (interval m)) (interval m)) (interval m)
         in quo64 (sub64 intervalTop (TMin m)) (interval m)))"

text \<open>
  The buckets before any aggregate has run: bucket \<open>i\<close> holds the time of
  \<^verbatim>\<open>m.TMin + int64(i) * m.interval\<close>.
\<close>

definition init_resultValues :: "'w MapReduceJob \<Rightarrow> nat \<Rightarrow> val list list" where
  "init_resultValues m n =
     map (\<lambda>i. [VTime (add64 (TMin m) (mul64 (int i) (interval m)))]) [0..<n]"

text \<open>
  \<^verbatim>\<open>Execute\<close>. \<^verbatim>\<open>int\<close> is 64 bits wide, so the conversions between \<^verbatim>\<open>int\<close> and
  \<^verbatim>\<open>int64\<close> change nothing. The two calls \<^verbatim>\<open>make([]int64, n)\<close> and
  \<^verbatim>\<open>make([][]interface{}, n)\<close> panic when \<open>n\<close> is negative and when it is more than the
  runtime allocates; \<open>Execute\<close> is given as \<open>maxLen\<close> the largest length for which both
  succeed on the platform. The write to \<^verbatim>\<open>m.interval\<close> is stored in the job: \<open>m'\<close> is
  the job the rest of the function runs with, and the job the call leaves, whether it
  returns or panics. A send is the last effect of every path that returns; the channel's
  consumer is taken to receive it.
\<close>

definition Execute ::
  "registry \<Rightarrow> int \<Rightarrow> 'w MapReduceJob \<Rightarrow> 'w st \<Rightarrow>
     (panic \<times> 'w MapReduceJob \<times> 'w st) + ('w MapReduceJob \<times> 'w st)" where
  "Execute irf maxLen m s =
     (let aggregates = AggregateCalls (stmt m) in
      case init_loop irf aggregates of
        Inl err \<Rightarrow> Inr (m, send (Row_zero\<lparr>Err := Some err\<rparr>) s)
      | Inr reduceFuncs0 \<Rightarrow>
          (let isRaw = (length aggregates = 0);
               aggregates' = (if isRaw then [None] else map Some aggregates);
               reduceFuncs = (if isRaw then reduceFuncs0 @ [fst (irf None)] else reduceFuncs0);
               n = pointCountInResult m;
               m' = m\<lparr>interval := effective_interval m\<rparr>
           in if n < 0 \<or> maxLen < n then Inl (MakeSliceLen, m', s)
              else
                (case aggregates_loop m' (zip aggregates' reduceFuncs)
                        (init_resultValues m' (nat n)) s of
                   Inl (p, s') \<Rightarrow> Inl (p, m', s')
                 | Inr (Inl err, s') \<Rightarrow>
                     Inr (m', send (Row_zero\<lparr>Name := MeasurementName m',
                                             Tags := TagSet_Tags (TagSet m'),
                                             Err := Some err\<rparr>) s')
                 | Inr (Inr resultValues, s') \<Rightarrow>
                     (if isRaw then
                        (case processRawResults m' resultValues of
                           Inl p \<Rightarrow> Inl (p, m', s')
                         | Inr row \<Rightarrow> Inr (m', send row s'))
                      else
                        Inr (m', send \<lparr>Name = MeasurementName m',
                                       Tags = TagSet_Tags (TagSet m'),
                                       Columns = ''time'' # map Call_Name aggregates,
                                       Values = resultValues,
                                       Err = None\<rparr> s')))))"

subsection \<open>Job keys\<close>

text \<open>
  \<^verbatim>\<open>bytes.Compare\<close> of the standard library: the lexicographic order of two byte
  strings, as \<open>-1\<close>, \<open>0\<close> or \<open>1\<close>.
\<close>

fun bytes_Compare :: "string \<Rightarrow> string \<Rightarrow> int" where
  "bytes_Compare [] [] = 0"
| "bytes_Compare [] (y # ys) = - 1"
| "bytes_Compare (x # xs) [] = 1"
| "bytes_Compare (x # xs) (y # ys) =
     (if (of_char x :: nat) < of_char y then - 1
      else if (of_char y :: nat) < of_char x then 1
      else bytes_Compare xs ys)"

text \<open>\<^verbatim>\<open>Key\<close>: the cached key, or the measurement name followed by the tag set's key.\<close>

definition Key :: "'w MapReduceJob \<Rightarrow> string" where
  "Key m = (case key m of None \<Rightarrow> MeasurementName m @ TagSet_Key (TagSet m) | Some k \<Rightarrow> k)"

text \<open>
  \<^verbatim>\<open>MapReduceJobs.Less\<close>, the order \<^verbatim>\<open>sort.Sort\<close> would use on a job list; \<open>a\<close>
  holds the jobs that the pointers of the list point to.
\<close>

definition Less :: "'w MapReduceJob list \<Rightarrow> nat \<Rightarrow> nat \<Rightarrow> panic + bool" where
  "Less a i j =
     (if i < length a \<and> j < length a then Inr (bytes_Compare (Key (a ! i)) (Key (a ! j)) = - 1)
      else Inl IndexOutOfRange)"

subsection \<open>The store of the job objects\<close>

text \<open>
  The planner and the executor hold pointers to jobs (\<^verbatim>\<open>[]*MapReduceJob\<close>): a pointer is
  an address, and the store maps every address to the job object that stands there. One
  object can stand at several places of a list. No pointer of a job list is nil. The state
  of the executor is the store together with the state of the engine.
\<close>

type_synonym 'w store = "nat \<Rightarrow> 'w MapReduceJob"

type_synonym 'w est = "'w store \<times> 'w st"

text \<open>
  The methods of a job run on the object at an address: \<^verbatim>\<open>j.Open()\<close>, \<^verbatim>\<open>j.Close()\<close> and
  \<^verbatim>\<open>j.Execute(out)\<close> for a pointer \<open>j\<close>. \<^verbatim>\<open>Execute\<close> leaves the object as it has
  written it.
\<close>

definition Open_at :: "nat \<Rightarrow> 'w est \<Rightarrow> error option \<times> 'w est" where
  "Open_at j c = (case Open (fst c j) (snd c) of (err, s') \<Rightarrow> (err, (fst c, s')))"

definition Close_at :: "nat \<Rightarrow> 'w est \<Rightarrow> 'w est" where
  "Close_at j c = (fst c, Close (fst c j) (snd c))"

definition Execute_at :: "registry \<Rightarrow> int \<Rightarrow> nat \<Rightarrow> 'w est \<Rightarrow> (panic \<times> 'w est) + 'w est" where
  "Execute_at irf maxLen j c =
     (case Execute irf maxLen (fst c j) (snd c) of
        Inl (p, m', s') \<Rightarrow> Inl (p, ((fst c)(j := m'), s'))
      | Inr (m', s') \<Rightarrow> Inr ((fst c)(j := m'), s'))"

subsection \<open>Planner.Plan\<close>

text \<open>
  The collaborators of the planner, by what they return: \<^verbatim>\<open>Tx.CreateMapReduceJobs\<close>,
  \<^verbatim>\<open>DB.Begin\<close> and the clock \<^verbatim>\<open>Now\<close>. \<^verbatim>\<open>Reduce\<close> with the \<^verbatim>\<open>nowValuer\<close> and
  \<^verbatim>\<open>Dimensions.Normalize\<close> are the parser's and are given to \<open>Plan\<close>. The transaction
  makes the job objects: it returns the pointers, and the store that holds the jobs.
\<close>

record 'w Tx =
  CreateMapReduceJobs ::
    "SelectStatement \<Rightarrow> string list \<Rightarrow> 'w store \<Rightarrow> (nat list \<times> 'w store) \<times> error option"

record 'w Planner =
  DB_Begin :: "'w Tx \<times> error option"
  Now :: int

record 'w Executor =
  Executor_tx :: "'w Tx"
  Executor_stmt :: SelectStatement
  jobs :: "nat list"
  Executor_interval :: int

text \<open>\<^verbatim>\<open>for _, j := range jobs { j.interval = interval.Nanoseconds(); j.stmt = stmt }\<close>\<close>

fun imprint_loop :: "int \<Rightarrow> SelectStatement \<Rightarrow> nat list \<Rightarrow> 'w store \<Rightarrow> 'w store" where
  "imprint_loop iv sel [] h = h"
| "imprint_loop iv sel (j # js) h =
     imprint_loop iv sel js (h(j := (h j)\<lparr>interval := iv, stmt := sel\<rparr>))"

definition Plan ::
  "(int \<Rightarrow> string \<Rightarrow> string) \<Rightarrow> (SelectStatement \<Rightarrow> (int \<times> string list) \<times> error option) \<Rightarrow>
     'w Planner \<Rightarrow> SelectStatement \<Rightarrow> 'w store \<Rightarrow> error + ('w Executor \<times> 'w store)" where
  "Plan Reduce Normalize p sel h =
     (let now = Now p;
          sel1 = sel\<lparr>Condition := Reduce now (Condition sel)\<rparr>
      in case DB_Begin p of
           (tx, Some err) \<Rightarrow> Inl err
         | (tx, None) \<Rightarrow>
             (case Normalize sel1 of
                (d, Some err) \<Rightarrow> Inl err
              | ((iv, tags), None) \<Rightarrow>
                  (case CreateMapReduceJobs tx sel1 tags h of
                     (r, Some err) \<Rightarrow> Inl err
                   | ((js, h1), None) \<Rightarrow>
                       Inr (\<lparr>Executor_tx = tx, Executor_stmt = sel1, jobs = js,
                             Executor_interval = iv\<rparr>,
                            imprint_loop iv sel1 js h1))))"

subsection \<open>Executor\<close>

text \<open>\<^verbatim>\<open>for _, j := range e.jobs { j.Close() }\<close>\<close>

fun close_loop :: "nat list \<Rightarrow> 'w est \<Rightarrow> 'w est" where
  "close_loop [] c = c"
| "close_loop (j # js) c = close_loop js (Close_at j c)"

definition close :: "'w Executor \<Rightarrow> 'w est \<Rightarrow> 'w est" where
  "close e c = close_loop (jobs e) c"

text \<open>
  The loop of \<^verbatim>\<open>execute\<close>: each job is executed in turn, whatever row the last one
  sent. A panic ends the loop.
\<close>

fun execute_loop :: "registry \<Rightarrow> int \<Rightarrow> nat list \<Rightarrow> 'w est \<Rightarrow> (panic \<times> 'w est) + 'w est" where
  "execute_loop irf maxLen [] c = Inr c"
| "execute_loop irf maxLen (j # js) c =
     (case Execute_at irf maxLen j c of
        Inl p \<Rightarrow> Inl p
      | Inr c' \<Rightarrow> execute_loop irf maxLen js c')"

text \<open>
  \<^verbatim>\<open>execute\<close>: the loop, the closing of the channel, then the deferred \<^verbatim>\<open>e.close()\<close>.
  The deferred call also runs when a job panics, before the process ends; the channel is
  not closed then.
\<close>

definition execute ::
  "registry \<Rightarrow> int \<Rightarrow> 'w Executor \<Rightarrow> 'w est \<Rightarrow> (panic \<times> 'w est) + 'w est" where
  "execute irf maxLen e c =
     (case execute_loop irf maxLen (jobs e) c of
        Inl (p, c') \<Rightarrow> Inl (p, close e c')
      | Inr c' \<Rightarrow> Inr (close e (fst c', close_out (snd c'))))"

text \<open>The opening loop of \<^verbatim>\<open>Executor.Execute\<close>: the first failure closes every job.\<close>

fun open_loop :: "'w Executor \<Rightarrow> nat list \<Rightarrow> 'w est \<Rightarrow> error option \<times> 'w est" where
  "open_loop e [] c = (None, c)"
| "open_loop e (j # js) c =
     (case Open_at j c of
        (Some err, c') \<Rightarrow> (Some err, close e c')
      | (None, c') \<Rightarrow> open_loop e js c')"

text \<open>
  \<^verbatim>\<open>Executor.Execute\<close>, with the goroutine it starts run to its end against a consumer
  that receives every row: \<open>Inr (Some err, c)\<close> is the synchronous error (no channel),
  \<open>Inr (None, c)\<close> the state once the channel is closed and the jobs are.
\<close>

definition Executor_Execute ::
  "registry \<Rightarrow> int \<Rightarrow> 'w Executor \<Rightarrow> 'w est \<Rightarrow> (panic \<times> 'w est) + (error option \<times> 'w est)" where
  "Executor_Execute irf maxLen e c =
     (case open_loop e (jobs e) c of
        (Some err, c') \<Rightarrow> Inr (Some err, c')
      | (None, c') \<Rightarrow>
          (case execute irf maxLen e c' of
             Inl p \<Rightarrow> Inl p
           | Inr c'' \<Rightarrow> Inr (None, c'')))"

section \<open>Vocabulary of the properties\<close>

text \<open>
  The storage world after \<^verbatim>\<open>Open\<close> has been called on each mapper of a
  list in turn.
\<close>

definition opened :: "'w Mapper list \<Rightarrow> 'w \<Rightarrow> 'w" where
  "opened ms w = fold (\<lambda>mm w. snd (Mapper_Open mm w)) ms w"

text \<open>
  A stretch of the log that holds calls of mapper methods only: no send, no closing of the
  channel.
\<close>

definition mapper_events :: "event list \<Rightarrow> bool" where
  "mapper_events evs \<longleftrightarrow> (\<forall>e\<in>set evs. case e of EvSend r \<Rightarrow> False | EvCloseOut \<Rightarrow> False | _ \<Rightarrow> True)"

text \<open>
  A call of \<^verbatim>\<open>Begin\<close> or of \<^verbatim>\<open>NextInterval\<close>
  that returned an error, and a stretch of the log without one.
\<close>

fun failed :: "event \<Rightarrow> bool" where
  "failed (EvBegin i c t (Some err)) = True"
| "failed (EvNextInterval i iv (Some err)) = True"
| "failed _ = False"

definition no_failure :: "event list \<Rightarrow> bool" where
  "no_failure evs \<longleftrightarrow> (\<forall>e\<in>set evs. \<not> failed e)"

text \<open>
  The loop over the aggregates as \<^verbatim>\<open>Execute\<close> starts it, once the
  reducers \<open>rfs\<close> are initialised: a name for that part of \<open>Execute\<close>,
  used in the proofs.
\<close>

definition run_aggregates ::
  "registry \<Rightarrow> 'w MapReduceJob \<Rightarrow> ReduceFunc option list \<Rightarrow> 'w st \<Rightarrow>
     (panic \<times> 'w st) + ((error + val list list) \<times> 'w st)" where
  "run_aggregates irf m rfs s =
     aggregates_loop (m\<lparr>interval := effective_interval m\<rparr>)
       (zip (if AggregateCalls (stmt m) = [] then [None] else map Some (AggregateCalls (stmt m)))
            (if AggregateCalls (stmt m) = [] then rfs @ [fst (irf None)] else rfs))
       (init_resultValues (m\<lparr>interval := effective_interval m\<rparr>) (nat (pointCountInResult m))) s"

text \<open>
  The times of a job as the data model has them: \<^verbatim>\<open>int64\<close> values with
  \<open>TMin \<le> TMax\<close> and a bucket width that is not negative.
\<close>

definition times_in_range :: "'w MapReduceJob \<Rightarrow> bool" where
  "times_in_range m \<longleftrightarrow>
     in_int64 (TMin m) \<and> in_int64 (TMax m) \<and> in_int64 (interval m) \<and>
     TMin m \<le> TMax m \<and> 0 \<le> interval m"

text \<open>
  The quotient of Go's division, before it is wrapped.
\<close>

definition tquot :: "int \<Rightarrow> int \<Rightarrow> int" where
  "tquot a b = sgn a * sgn b * (\<bar>a\<bar> div \<bar>b\<bar>)"

text \<open>
  The distance from \<open>TMin\<close> to the upper edge of the last bucket of a job with
  more than one bucket, before any wrap-around.
\<close>

definition span :: "'w MapReduceJob \<Rightarrow> int" where
  "span m = tquot (TMax m) (interval m) * interval m + interval m - TMin m"

text \<open>
  The column names of a raw row: the selected names, with \<^verbatim>\<open>time\<close> in
  front when they do not hold it.
\<close>

definition raw_Columns :: "SelectStatement \<Rightarrow> string list" where
  "raw_Columns st =
     (if ''time'' \<in> set (NamesInSelect st) then NamesInSelect st else ''time'' # NamesInSelect st)"

text \<open>
  A raw record's \<^verbatim>\<open>values\<close> that passes the type assertion of its path:
  not the nil interface for a single value, a map of fields otherwise.
\<close>

definition payload_ok :: "string list \<Rightarrow> val \<Rightarrow> bool" where
  "payload_ok selectNames p =
     (if length selectNames = 2 then p \<noteq> VNil else (case p of VFields fs \<Rightarrow> True | _ \<Rightarrow> False))"

text \<open>
  The registry never answers an aggregate call of the job with a nil reducer and no error.
\<close>

definition reducers_ok :: "registry \<Rightarrow> 'w MapReduceJob \<Rightarrow> bool" where
  "reducers_ok irf m \<longleftrightarrow>
     (\<forall>c\<in>set (AggregateCalls (stmt m)). snd (irf (Some c)) = None \<longrightarrow> fst (irf (Some c)) \<noteq> None)"

text \<open>
  The raw values on the way to \<^verbatim>\<open>processRawResults\<close>: a sequence of raw
  records whose values pass their type assertion is what the reducer has to return; a mapper
  returns such a sequence, or nil when it has no more data.
\<close>

definition raw_records_ok :: "string list \<Rightarrow> val \<Rightarrow> bool" where
  "raw_records_ok selectNames v \<longleftrightarrow>
     (case v of VRaw recs \<Rightarrow> (\<forall>r\<in>set recs. payload_ok selectNames (snd r)) | _ \<Rightarrow> False)"

definition raw_output_ok :: "string list \<Rightarrow> val \<Rightarrow> bool" where
  "raw_output_ok selectNames v \<longleftrightarrow> v = VNil \<or> raw_records_ok selectNames v"

text \<open>
  Every result that a mapper of the job returns without an error has that shape.
\<close>

definition raw_mappers_ok :: "'w MapReduceJob \<Rightarrow> bool" where
  "raw_mappers_ok m \<longleftrightarrow>
     (\<forall>mm\<in>set (Mappers m). \<forall>iv w.
        snd (fst (Mapper_NextInterval mm iv w)) = None \<longrightarrow>
        raw_output_ok (raw_Columns (stmt m)) (fst (fst (Mapper_NextInterval mm iv w))))"

text \<open>
  The registry's raw reducer exists, and from mapper outputs of that shape it makes raw
  records whose values pass their type assertion.
\<close>

definition raw_reducer_ok :: "registry \<Rightarrow> 'w MapReduceJob \<Rightarrow> bool" where
  "raw_reducer_ok irf m \<longleftrightarrow>
     (\<exists>f. fst (irf None) = Some f \<and>
        (\<forall>outs. (\<forall>v\<in>set outs. raw_output_ok (raw_Columns (stmt m)) v) \<longrightarrow>
           raw_records_ok (raw_Columns (stmt m)) (f outs)))"

text \<open>
  Conditions under which no statement of \<^verbatim>\<open>Execute\<close> panics, whatever
  the mappers do: in raw mode the shapes above and room for one bucket; otherwise no nil
  reducer, and a bucket count that \<^verbatim>\<open>make\<close> accepts.
\<close>

definition no_panic :: "registry \<Rightarrow> int \<Rightarrow> 'w MapReduceJob \<Rightarrow> bool" where
  "no_panic irf maxLen m \<longleftrightarrow>
     (if AggregateCalls (stmt m) = [] then
        raw_reducer_ok irf m \<and> raw_mappers_ok m \<and> 1 \<le> maxLen
      else
        reducers_ok irf m \<and> 0 \<le> pointCountInResult m \<and> pointCountInResult m \<le> maxLen)"

text \<open>
  No mapper of the job ever returns an error from \<^verbatim>\<open>Begin\<close> or
  \<^verbatim>\<open>NextInterval\<close>.
\<close>

definition mappers_never_fail :: "'w MapReduceJob \<Rightarrow> bool" where
  "mappers_never_fail m \<longleftrightarrow>
     (\<forall>mm\<in>set (Mappers m).
        (\<forall>c t w. fst (Mapper_Begin mm c t w) = None) \<and>
        (\<forall>iv w. snd (fst (Mapper_NextInterval mm iv w)) = None))"

text \<open>
  A row that job \<open>j\<close> of a query with the statement \<open>sel\<close> can send:
  it carries the job's name and tags, or it is the bare error row of a reducer of the
  statement that fails to initialise, with that error.
\<close>

definition row_of_job :: "registry \<Rightarrow> SelectStatement \<Rightarrow> 'w MapReduceJob \<Rightarrow> Row \<Rightarrow> bool" where
  "row_of_job irf sel j r \<longleftrightarrow>
     (Name r = MeasurementName j \<and> Tags r = TagSet_Tags (TagSet j)) \<or>
     (\<exists>err. init_loop irf (AggregateCalls sel) = Inl err \<and> r = Row_zero\<lparr>Err := Some err\<rparr>)"

text \<open>
  The events of the deferred \<^verbatim>\<open>e.close()\<close>: one
  \<^verbatim>\<open>Close\<close> for every mapper of every job of the list, in order.
\<close>

definition close_events :: "'w store \<Rightarrow> nat list \<Rightarrow> event list" where
  "close_events h js = concat (map (\<lambda>j. map (\<lambda>mm. EvClose (mid mm)) (Mappers (h j))) js)"

text \<open>
  The job at the address \<open>j\<close>, executed in the state \<open>c\<close>, returns and
  leaves the state \<open>c'\<close>; \<open>row\<close> is the one row it has sent, as its
  last effect.
\<close>

definition job_runs :: "registry \<Rightarrow> int \<Rightarrow> nat \<Rightarrow> 'w est \<Rightarrow> Row \<Rightarrow> 'w est \<Rightarrow> bool" where
  "job_runs irf maxLen j c row c' \<longleftrightarrow>
     Execute_at irf maxLen j c = Inr c' \<and>
     (\<exists>evs. snd (snd c') = snd (snd c) @ evs @ [EvSend row] \<and> mapper_events evs)"

text \<open>
  The jobs of a list run one after the other: job \<open>i\<close> is executed in the state
  \<open>cs ! i\<close> that the job before it left (the first in \<open>cs ! 0\<close>),
  returns, and has sent \<open>rows ! i\<close>. Nothing is asked of the rows: any of them may
  carry an error.
\<close>

definition jobs_run_in_turn ::
  "registry \<Rightarrow> int \<Rightarrow> nat list \<Rightarrow> 'w est list \<Rightarrow> Row list \<Rightarrow> bool" where
  "jobs_run_in_turn irf maxLen js cs rows \<longleftrightarrow>
     length cs = Suc (length js) \<and> length rows = length js \<and>
     (\<forall>i<length js. job_runs irf maxLen (js ! i) (cs ! i) (rows ! i) (cs ! Suc i))"

text \<open>
  Two stores that hold the same jobs but for their intervals: all that the execution of jobs
  changes in a store.
\<close>

definition same_jobs :: "'w store \<Rightarrow> 'w store \<Rightarrow> bool" where
  "same_jobs h h' \<longleftrightarrow> (\<forall>j. \<exists>iv. h' j = (h j)\<lparr>interval := iv\<rparr>)"

section \<open>Examples\<close>

text \<open>
  A mapper that replays a list of results, one for each
  \<^verbatim>\<open>NextInterval\<close> since the last \<^verbatim>\<open>Begin\<close>; the
  world is its cursor.
\<close>

definition replay_mapper :: "nat \<Rightarrow> error option \<Rightarrow> error option \<Rightarrow> (val \<times> error option) list \<Rightarrow> nat Mapper" where
  "replay_mapper i open_err begin_err outs =
     \<lparr>mid = i,
      Mapper_Open = (\<lambda>w. (open_err, w)),
      Mapper_Close = (\<lambda>w. w),
      Mapper_Begin = (\<lambda>c t w. (begin_err, 0)),
      Mapper_NextInterval = (\<lambda>iv w. (if w < length outs then outs ! w else (VNil, None), Suc w))\<rparr>"

text \<open>
  Two reducers: the sum of the mappers' numbers, and the raw reducer, which joins the mappers'
  records.
\<close>

definition sum_reduce :: ReduceFunc where
  "sum_reduce outs = VNum (sum_list (map (\<lambda>v. case v of VNum n \<Rightarrow> n | _ \<Rightarrow> 0) outs))"

definition raw_reduce :: ReduceFunc where
  "raw_reduce outs = VRaw (concat (map (\<lambda>v. case v of VRaw recs \<Rightarrow> recs | _ \<Rightarrow> []) outs))"

text \<open>
  A registry that knows \<^verbatim>\<open>sum\<close> and the raw reducer only.
\<close>

definition example_registry :: registry where
  "example_registry c =
     (case c of
        None \<Rightarrow> (Some raw_reduce, None)
      | Some call \<Rightarrow>
          if Call_Name call = ''sum'' then (Some sum_reduce, None)
          else (None, Some (Error ''function not implemented'')))"

text \<open>
  A statement with one aggregate call, a raw statement, and a job of the measurement
  \<^verbatim>\<open>m\<close> with the one tag \<^verbatim>\<open>host\<close>, whose value
  is also the key of the tag set.
\<close>

definition call_stmt :: "string \<Rightarrow> SelectStatement" where
  "call_stmt f = \<lparr>AggregateCalls = [\<lparr>Call_Name = f, Call_Args = [''value'']\<rparr>],
                   NamesInSelect = [f], Condition = []\<rparr>"

definition raw_stmt :: "string list \<Rightarrow> SelectStatement" where
  "raw_stmt names = \<lparr>AggregateCalls = [], NamesInSelect = names, Condition = []\<rparr>"

definition example_job ::
  "string \<Rightarrow> int \<Rightarrow> int \<Rightarrow> int \<Rightarrow> SelectStatement \<Rightarrow> nat Mapper list \<Rightarrow> nat MapReduceJob" where
  "example_job host tmin tmax iv st ms =
     \<lparr>MeasurementName = ''m'',
      TagSet = \<lparr>TagSet_Tags = [''host'' \<mapsto> host], TagSet_Filters = [], TagSet_SeriesIDs = [],
                TagSet_Key = host\<rparr>,
      Mappers = ms, TMin = tmin, TMax = tmax, key = None, interval = iv, stmt = st\<rparr>"

text \<open>
  A store of idle jobs; a transaction that puts the given jobs at the addresses 0, 1, ... of
  the store it is given and returns these pointers in that order; a planner on it.
\<close>

definition blank_store :: "nat store" where
  "blank_store = (\<lambda>a. example_job [] 0 0 0 (raw_stmt []) [])"

fun put_jobs :: "'w MapReduceJob list \<Rightarrow> nat \<Rightarrow> 'w store \<Rightarrow> 'w store" where
  "put_jobs [] a h = h"
| "put_jobs (j # js) a h = put_jobs js (Suc a) (h(a := j))"

definition example_tx :: "nat MapReduceJob list \<Rightarrow> nat Tx" where
  "example_tx js =
     \<lparr>CreateMapReduceJobs =
        (\<lambda>st tags h. (([0..<length js], put_jobs (map (\<lambda>j. j\<lparr>stmt := st\<rparr>) js) 0 h), None))\<rparr>"

definition example_planner :: "nat MapReduceJob list \<Rightarrow> nat Planner" where
  "example_planner js = \<lparr>DB_Begin = (example_tx js, None), Now = 0\<rparr>"

text \<open>
  A bound no platform exceeds: a slice of \<open>2^48\<close> elements does not fit an address
  space of 64 bits.
\<close>

definition example_maxLen :: int where
  "example_maxLen = 2 ^ 48"

text \<open>
  Two buckets of ten nanoseconds from 10 to 29, the mapper returning 3 then 7.
\<close>

definition scenario3_job :: "nat MapReduceJob" where
  "scenario3_job = example_job ''a'' 10 29 10 (call_stmt ''sum'')
     [replay_mapper 0 None None [(VNum 3, None), (VNum 7, None)]]"

text \<open>
  The same job with a mapper whose \<^verbatim>\<open>Begin\<close> fails.
\<close>

definition begin_fails_job :: "nat MapReduceJob" where
  "begin_fails_job = example_job ''a'' 10 29 10 (call_stmt ''sum'')
     [replay_mapper 0 None (Some (Error ''begin failed'')) []]"

text \<open>
  A job whose upper edge does not fit \<^verbatim>\<open>int64\<close>.
\<close>

definition overflow_job :: "nat MapReduceJob" where
  "overflow_job = example_job ''a'' 1 9223372036854775807 6917529027641081856 (call_stmt ''sum'')
     [replay_mapper 0 None None []]"

text \<open>
  A job of \<open>2^62\<close> buckets of one nanosecond.
\<close>

definition huge_job :: "nat MapReduceJob" where
  "huge_job = example_job ''a'' 1 4611686018427387904 1 (call_stmt ''sum'')
     [replay_mapper 0 None None []]"

text \<open>
  A job whose upper edge wraps around so far that the count of the code is negative.
\<close>

definition wrap_job :: "nat MapReduceJob" where
  "wrap_job = example_job ''a'' 2305843009213693952 9223372036854775807 6917529027641081856
     (call_stmt ''sum'') [replay_mapper 0 None None []]"

text \<open>
  A job whose aggregate call the registry does not know.
\<close>

definition unknown_call_job :: "nat MapReduceJob" where
  "unknown_call_job = example_job ''a'' 10 29 10 (call_stmt ''nope'')
     [replay_mapper 0 None None []]"

text \<open>
  The row, the mapper calls and the log of the job of two buckets.
\<close>

definition scenario3_row :: Row where
  "scenario3_row = \<lparr>Name = ''m'', Tags = [''host'' \<mapsto> ''a''], Columns = [''time'', ''sum''],
                     Values = [[VTime 10, VNum 3], [VTime 20, VNum 7]], Err = None\<rparr>"

definition scenario3_calls :: "event list" where
  "scenario3_calls = [EvBegin 0 (Some \<lparr>Call_Name = ''sum'', Call_Args = [''value'']\<rparr>) 10 None,
                      EvNextInterval 0 10 None, EvNextInterval 0 10 None]"

definition scenario3_log :: "event list" where
  "scenario3_log = scenario3_calls @ [EvSend scenario3_row]"

text \<open>
  A statement without \<^verbatim>\<open>now()\<close> and without a group-by clause: nothing
  to rewrite, interval zero, no tag keys.
\<close>

definition example_Reduce :: "int \<Rightarrow> string \<Rightarrow> string" where
  "example_Reduce now c = c"

definition example_Normalize :: "SelectStatement \<Rightarrow> (int \<times> string list) \<times> error option" where
  "example_Normalize st = ((0, []), None)"

text \<open>
  Two jobs of one query, returned by the transaction with key \<^verbatim>\<open>b\<close>
  before key \<^verbatim>\<open>a\<close>.
\<close>

definition job_b :: "nat MapReduceJob" where
  "job_b = example_job ''b'' 0 100 0 (call_stmt ''sum'') [replay_mapper 0 None None [(VNum 1, None)]]"

definition job_a :: "nat MapReduceJob" where
  "job_a = example_job ''a'' 0 100 0 (call_stmt ''sum'') [replay_mapper 1 None None [(VNum 2, None)]]"

text \<open>
  The executor of the two jobs, the store as the transaction and the planner leave it, and as
  the executor leaves it; the two rows and the log.
\<close>

definition executor_b_a :: "nat Executor" where
  "executor_b_a = \<lparr>Executor_tx = example_tx [job_b, job_a], Executor_stmt = call_stmt ''sum'',
                    jobs = [0, 1], Executor_interval = 0\<rparr>"

definition store_b_a :: "nat store" where
  "store_b_a = blank_store(0 := job_b, 1 := job_a)"

definition store_b_a_done :: "nat store" where
  "store_b_a_done = blank_store(0 := job_b\<lparr>interval := 100\<rparr>, 1 := job_a\<lparr>interval := 100\<rparr>)"

definition row_b :: Row where
  "row_b = \<lparr>Name = ''m'', Tags = [''host'' \<mapsto> ''b''], Columns = [''time'', ''sum''],
             Values = [[VTime 0, VNum 1]], Err = None\<rparr>"

definition row_a :: Row where
  "row_a = \<lparr>Name = ''m'', Tags = [''host'' \<mapsto> ''a''], Columns = [''time'', ''sum''],
             Values = [[VTime 0, VNum 2]], Err = None\<rparr>"

definition sum_call :: Call where
  "sum_call = \<lparr>Call_Name = ''sum'', Call_Args = [''value'']\<rparr>"

definition log_b_a :: "event list" where
  "log_b_a = [EvOpen 0, EvOpen 1,
              EvBegin 0 (Some sum_call) 0 None, EvNextInterval 0 100 None, EvSend row_b,
              EvBegin 1 (Some sum_call) 0 None, EvNextInterval 1 100 None, EvSend row_a,
              EvCloseOut, EvClose 0, EvClose 1]"

text \<open>
  An executor of two jobs, the first with the failing mapper; its store, the row and the log
  of that job, and the states the two jobs run through.
\<close>

definition executor_fail_ok :: "nat Executor" where
  "executor_fail_ok = \<lparr>Executor_tx = example_tx [], Executor_stmt = call_stmt ''sum'',
                        jobs = [0, 1], Executor_interval = 10\<rparr>"

definition fail_ok_store :: "nat store" where
  "fail_ok_store = blank_store(0 := begin_fails_job, 1 := scenario3_job)"

definition begin_fails_row :: Row where
  "begin_fails_row = \<lparr>Name = ''m'', Tags = [''host'' \<mapsto> ''a''], Columns = [],
                       Values = [], Err = Some (Error ''begin failed'')\<rparr>"

definition begin_fails_log :: "event list" where
  "begin_fails_log = [EvBegin 0 (Some sum_call) 10 (Some (Error ''begin failed'')),
                      EvSend begin_fails_row]"

definition fail_ok_states :: "nat est list" where
  "fail_ok_states = [(fail_ok_store, (0, [])), (fail_ok_store, (0, begin_fails_log)),
                     (fail_ok_store, (2, begin_fails_log @ scenario3_log))]"

text \<open>
  A job of three mappers, the second failing to open, and a raw job of one selected name.
\<close>

definition open_fails_job :: "nat MapReduceJob" where
  "open_fails_job = example_job ''a'' 0 100 0 (call_stmt ''sum'')
     [replay_mapper 0 None None [], replay_mapper 1 (Some (Error ''open failed'')) None [],
      replay_mapper 2 None None []]"

definition raw_job :: "nat MapReduceJob" where
  "raw_job = example_job ''a'' 0 100 0 (raw_stmt [''v''])
     [replay_mapper 0 None None [(VRaw [(5, VStr ''a''), (9, VStr ''b'')], None)]]"

text \<open>
  A raw job whose mapper returns one record without a value.
\<close>

definition raw_nil_job :: "nat MapReduceJob" where
  "raw_nil_job = example_job ''a'' 0 100 0 (raw_stmt [''v''])
     [replay_mapper 0 None None [(VRaw [(5, VNil)], None)]]"

text \<open>
  The mapper calls and the row of the raw job of one selected name.
\<close>

definition raw_calls :: "event list" where
  "raw_calls = [EvBegin 0 None 0 None, EvNextInterval 0 100 None]"

definition raw_row :: Row where
  "raw_row = \<lparr>Name = ''m'', Tags = [''host'' \<mapsto> ''a''], Columns = [''time'', ''v''],
               Values = [[VTime 5, VStr ''a''], [VTime 9, VStr ''b'']], Err = None\<rparr>"

text \<open>
  A job without a group-by interval from 10 to 11.
\<close>

definition narrow_job :: "nat MapReduceJob" where
  "narrow_job = example_job ''a'' 10 11 0 (call_stmt ''sum'')
     [replay_mapper 0 None None [(VNum 3, None), (VNum 7, None)]]"

section \<open>Lemmas\<close>

subsection \<open>Opening and closing a job\<close>

lemma Close_loop_eq:
  "Close_loop ms (w, lg) = (fold Mapper_Close ms w, lg @ map (\<lambda>mm. EvClose (mid mm)) ms)"
  by (induction ms arbitrary: w lg) (simp_all add: call_Close_def)

lemma Open_loop_all_ok:
  "(\<forall>i<length ms. fst (Mapper_Open (ms ! i) (opened (take i ms) w)) = None) \<Longrightarrow>
   Open_loop m ms (w, lg) = (None, (opened ms w, lg @ map (\<lambda>mm. EvOpen (mid mm)) ms))"
proof (induction ms arbitrary: w lg)
  case Nil
  then show ?case by (simp add: opened_def)
next
  case (Cons mm ms)
  from Cons.prems have h0: "fst (Mapper_Open mm w) = None"
    by (auto simp: opened_def dest: spec [of _ 0])
  have "\<forall>i<length ms. fst (Mapper_Open (ms ! i) (opened (take i ms) (snd (Mapper_Open mm w)))) = None"
  proof (intro allI impI)
    fix i assume "i < length ms"
    with Cons.prems have "fst (Mapper_Open ((mm # ms) ! Suc i) (opened (take (Suc i) (mm # ms)) w)) = None"
      by (metis Suc_less_eq length_Cons)
    then show "fst (Mapper_Open (ms ! i) (opened (take i ms) (snd (Mapper_Open mm w)))) = None"
      by (simp add: opened_def)
  qed
  from Cons.IH [OF this] h0 show ?case
    by (cases "Mapper_Open mm w") (simp add: call_Open_def opened_def)
qed

lemma Open_loop_fails_at:
  "k < length ms \<Longrightarrow>
   (\<forall>i<k. fst (Mapper_Open (ms ! i) (opened (take i ms) w)) = None) \<Longrightarrow>
   fst (Mapper_Open (ms ! k) (opened (take k ms) w)) = Some err \<Longrightarrow>
   Open_loop m ms (w, lg) =
     (Some err, Close m (opened (take (Suc k) ms) w, lg @ map (\<lambda>mm. EvOpen (mid mm)) (take (Suc k) ms)))"
proof (induction ms arbitrary: w lg k)
  case Nil
  then show ?case by simp
next
  case (Cons mm ms)
  show ?case
  proof (cases k)
    case 0
    with Cons.prems show ?thesis
      by (cases "Mapper_Open mm w") (simp add: call_Open_def opened_def)
  next
    case (Suc k')
    from Cons.prems Suc have h0: "fst (Mapper_Open mm w) = None"
      by (auto simp: opened_def dest: spec [of _ 0])
    have a: "k' < length ms" using Cons.prems Suc by simp
    have b: "\<forall>i<k'. fst (Mapper_Open (ms ! i) (opened (take i ms) (snd (Mapper_Open mm w)))) = None"
    proof (intro allI impI)
      fix i assume "i < k'"
      then have "Suc i < k" using Suc by simp
      with Cons.prems have "fst (Mapper_Open ((mm # ms) ! Suc i) (opened (take (Suc i) (mm # ms)) w)) = None"
        by blast
      then show "fst (Mapper_Open (ms ! i) (opened (take i ms) (snd (Mapper_Open mm w)))) = None"
        by (simp add: opened_def)
    qed
    have c: "fst (Mapper_Open (ms ! k') (opened (take k' ms) (snd (Mapper_Open mm w)))) = Some err"
      using Cons.prems Suc by (simp add: opened_def)
    from Cons.IH [OF a b c] h0 Suc show ?thesis
      by (cases "Mapper_Open mm w") (simp add: call_Open_def opened_def)
  qed
qed

subsection \<open>The event log\<close>

lemma sent_append: "sent (xs @ ys) = sent xs @ sent ys"
  by (induction xs rule: sent.induct) simp_all

lemma mapper_events_Nil: "mapper_events []"
  by (simp add: mapper_events_def)

lemma mapper_events_append: "mapper_events (a @ b) \<longleftrightarrow> mapper_events a \<and> mapper_events b"
  by (auto simp: mapper_events_def)

lemma mapper_events_sent: "mapper_events evs \<Longrightarrow> sent evs = []"
  by (induction evs rule: sent.induct) (simp_all add: mapper_events_def)

lemma no_failure_Nil: "no_failure []"
  by (simp add: no_failure_def)

lemma no_failure_append: "no_failure (a @ b) \<longleftrightarrow> no_failure a \<and> no_failure b"
  by (auto simp: no_failure_def)

lemma Begin_loop_log:
  "Begin_loop ms c t s = (r, s') \<Longrightarrow>
   \<exists>evs. snd s' = snd s @ evs \<and> mapper_events evs \<and> (no_failure evs \<longleftrightarrow> r = None)"
proof (induction ms arbitrary: s)
  case Nil
  then show ?case by (auto simp: mapper_events_def no_failure_def)
next
  case (Cons mm ms)
  obtain e w1 where mb: "Mapper_Begin mm c t (fst s) = (e, w1)" by (cases "Mapper_Begin mm c t (fst s)")
  let ?ev = "EvBegin (mid mm) c t e"
  have me: "mapper_events [?ev]" by (simp add: mapper_events_def)
  show ?case
  proof (cases e)
    case None
    with Cons.prems mb have "Begin_loop ms c t (w1, snd s @ [?ev]) = (r, s')"
      by (simp add: call_Begin_def)
    from Cons.IH [OF this] obtain evs where
      "snd s' = (snd s @ [?ev]) @ evs" "mapper_events evs" "no_failure evs \<longleftrightarrow> r = None"
      by auto
    with me None have "snd s' = snd s @ ([?ev] @ evs) \<and> mapper_events ([?ev] @ evs) \<and>
        (no_failure ([?ev] @ evs) \<longleftrightarrow> r = None)"
      by (simp add: mapper_events_def no_failure_def)
    then show ?thesis by blast
  next
    case (Some err)
    with Cons.prems mb have "snd s' = snd s @ [?ev]" "r = Some err"
      by (auto simp: call_Begin_def)
    moreover have "\<not> no_failure [?ev]" using Some by (simp add: no_failure_def)
    ultimately show ?thesis using me by blast
  qed
qed

lemma NextInterval_loop_log:
  "NextInterval_loop ms iv s = (r, s') \<Longrightarrow>
   \<exists>evs. snd s' = snd s @ evs \<and> mapper_events evs \<and> (no_failure evs \<longleftrightarrow> \<not> isl r)"
proof (induction ms arbitrary: s r)
  case Nil
  then show ?case by (auto simp: mapper_events_def no_failure_def)
next
  case (Cons mm ms)
  obtain res e w1 where mb: "Mapper_NextInterval mm iv (fst s) = ((res, e), w1)"
    by (cases "Mapper_NextInterval mm iv (fst s)") auto
  let ?ev = "EvNextInterval (mid mm) iv e"
  let ?s1 = "(w1, snd s @ [?ev])"
  have me: "mapper_events [?ev]" by (simp add: mapper_events_def)
  show ?case
  proof (cases e)
    case None
    obtain r2 s2 where rec: "NextInterval_loop ms iv ?s1 = (r2, s2)"
      by (cases "NextInterval_loop ms iv ?s1")
    with Cons.prems mb None have eq: "s' = s2" "isl r = isl r2"
      by (auto simp: call_NextInterval_def split: sum.splits)
    with rec have "NextInterval_loop ms iv ?s1 = (r2, s')" by simp
    from Cons.IH [OF this] obtain evs where
      "snd s' = snd ?s1 @ evs" "mapper_events evs" "no_failure evs \<longleftrightarrow> \<not> isl r2"
      by auto
    with me None eq have "snd s' = snd s @ ([?ev] @ evs) \<and>
        mapper_events ([?ev] @ evs) \<and> (no_failure ([?ev] @ evs) \<longleftrightarrow> \<not> isl r)"
      by (simp add: mapper_events_def no_failure_def)
    then show ?thesis by blast
  next
    case (Some err)
    with Cons.prems mb have "snd s' = snd s @ [?ev]" "r = Inl err"
      by (auto simp: call_NextInterval_def)
    moreover have "\<not> no_failure [?ev]" using Some by (simp add: no_failure_def)
    ultimately show ?thesis using me by auto
  qed
qed

lemma bucket_loop_log:
  "bucket_loop ms iv rf rvs s = Inr (r, s') \<Longrightarrow>
   \<exists>evs. snd s' = snd s @ evs \<and> mapper_events evs \<and> (no_failure evs \<longleftrightarrow> \<not> isl r)"
proof (induction rvs arbitrary: s r)
  case Nil
  then show ?case by (auto simp: mapper_events_def no_failure_def)
next
  case (Cons rv rvs)
  obtain r1 s1 where ni: "NextInterval_loop ms iv s = (r1, s1)"
    by (cases "NextInterval_loop ms iv s")
  from NextInterval_loop_log [OF ni] obtain evs1 where
    e1: "snd s1 = snd s @ evs1" "mapper_events evs1" "no_failure evs1 \<longleftrightarrow> \<not> isl r1"
    by auto
  show ?case
  proof (cases r1)
    case (Inl err)
    with Cons.prems ni have "s' = s1" "r = Inl err" by simp_all
    with e1 Inl show ?thesis by auto
  next
    case (Inr outs)
    with Cons.prems ni obtain f where f: "rf = Some f" by (cases rf) auto
    with Cons.prems ni Inr obtain r2 where
      rec: "bucket_loop ms iv rf rvs s1 = Inr (r2, s')" and eq: "isl r = isl r2"
      by (auto split: sum.splits)
    from Cons.IH [OF rec] obtain evs2 where
      "snd s' = snd s1 @ evs2" "mapper_events evs2" "no_failure evs2 \<longleftrightarrow> \<not> isl r2" by auto
    with e1 Inr eq have "snd s' = snd s @ (evs1 @ evs2) \<and> mapper_events (evs1 @ evs2) \<and>
        (no_failure (evs1 @ evs2) \<longleftrightarrow> \<not> isl r)"
      by (simp add: mapper_events_append no_failure_append)
    then show ?thesis by blast
  qed
qed

lemma bucket_loop_panic_log:
  "bucket_loop ms iv rf rvs s = Inl (p, s') \<Longrightarrow>
   \<exists>evs. snd s' = snd s @ evs \<and> mapper_events evs"
proof (induction rvs arbitrary: s)
  case Nil
  then show ?case by simp
next
  case (Cons rv rvs)
  obtain r1 s1 where ni: "NextInterval_loop ms iv s = (r1, s1)"
    by (cases "NextInterval_loop ms iv s")
  from NextInterval_loop_log [OF ni] obtain evs1 where
    e1: "snd s1 = snd s @ evs1" "mapper_events evs1"
    by auto
  from Cons.prems ni obtain outs where outs: "r1 = Inr outs" by (cases r1) auto
  show ?case
  proof (cases rf)
    case None
    with Cons.prems ni outs have "s' = s1" by simp
    with e1 show ?thesis by blast
  next
    case (Some f)
    with Cons.prems ni outs have "bucket_loop ms iv rf rvs s1 = Inl (p, s')"
      by (auto split: sum.splits)
    from Cons.IH [OF this] obtain evs2 where "snd s' = snd s1 @ evs2" "mapper_events evs2" by auto
    with e1 have "snd s' = snd s @ (evs1 @ evs2) \<and> mapper_events (evs1 @ evs2)"
      by (simp add: mapper_events_append)
    then show ?thesis by blast
  qed
qed

lemma processAggregate_log:
  "processAggregate m c rf rvs s = Inr (r, s') \<Longrightarrow>
   \<exists>evs. snd s' = snd s @ evs \<and> mapper_events evs \<and> (no_failure evs \<longleftrightarrow> \<not> isl r)"
proof -
  assume a: "processAggregate m c rf rvs s = Inr (r, s')"
  obtain e s1 where b: "Begin_loop (Mappers m) c (TMin m) s = (e, s1)"
    by (cases "Begin_loop (Mappers m) c (TMin m) s")
  from Begin_loop_log [OF b] obtain evs1 where
    e1: "snd s1 = snd s @ evs1" "mapper_events evs1" "no_failure evs1 \<longleftrightarrow> e = None" by auto
  show ?thesis
  proof (cases e)
    case None
    with a b have "bucket_loop (Mappers m) (interval m) rf rvs s1 = Inr (r, s')"
      by (simp add: processAggregate_def)
    from bucket_loop_log [OF this] obtain evs2 where
      "snd s' = snd s1 @ evs2" "mapper_events evs2" "no_failure evs2 \<longleftrightarrow> \<not> isl r" by auto
    with e1 None have "snd s' = snd s @ (evs1 @ evs2) \<and> mapper_events (evs1 @ evs2) \<and>
        (no_failure (evs1 @ evs2) \<longleftrightarrow> \<not> isl r)"
      by (simp add: mapper_events_append no_failure_append)
    then show ?thesis by blast
  next
    case (Some err)
    with a b have "s' = s1" "r = Inl err" by (simp_all add: processAggregate_def)
    with e1 Some show ?thesis by auto
  qed
qed

lemma processAggregate_panic_log:
  "processAggregate m c rf rvs s = Inl (p, s') \<Longrightarrow>
   \<exists>evs. snd s' = snd s @ evs \<and> mapper_events evs"
proof -
  assume a: "processAggregate m c rf rvs s = Inl (p, s')"
  obtain e s1 where b: "Begin_loop (Mappers m) c (TMin m) s = (e, s1)"
    by (cases "Begin_loop (Mappers m) c (TMin m) s")
  from Begin_loop_log [OF b] obtain evs1 where
    e1: "snd s1 = snd s @ evs1" "mapper_events evs1" by auto
  from a b have "e = None" by (cases e) (simp_all add: processAggregate_def)
  with a b have "bucket_loop (Mappers m) (interval m) rf rvs s1 = Inl (p, s')"
    by (simp add: processAggregate_def)
  from bucket_loop_panic_log [OF this] obtain evs2 where
    "snd s' = snd s1 @ evs2" "mapper_events evs2" by auto
  with e1 have "snd s' = snd s @ (evs1 @ evs2) \<and> mapper_events (evs1 @ evs2)"
    by (simp add: mapper_events_append)
  then show ?thesis by blast
qed

lemma aggregates_loop_log:
  "aggregates_loop m cs rvs s = Inr (r, s') \<Longrightarrow>
   \<exists>evs. snd s' = snd s @ evs \<and> mapper_events evs \<and> (no_failure evs \<longleftrightarrow> \<not> isl r)"
proof (induction cs arbitrary: rvs s)
  case Nil
  then show ?case by (auto simp: mapper_events_def no_failure_def)
next
  case (Cons crf cs)
  obtain c rf where crf: "crf = (c, rf)" by (cases crf)
  from Cons.prems crf obtain r1 s1 where pa: "processAggregate m c rf rvs s = Inr (r1, s1)"
    by (cases "processAggregate m c rf rvs s") auto
  from processAggregate_log [OF pa] obtain evs1 where
    e1: "snd s1 = snd s @ evs1" "mapper_events evs1" "no_failure evs1 \<longleftrightarrow> \<not> isl r1" by auto
  show ?case
  proof (cases r1)
    case (Inl err)
    with Cons.prems crf pa have "s' = s1" "r = Inl err" by simp_all
    with e1 Inl show ?thesis by auto
  next
    case (Inr rvs1)
    with Cons.prems crf pa have "aggregates_loop m cs rvs1 s1 = Inr (r, s')" by simp
    from Cons.IH [OF this] obtain evs2 where
      "snd s' = snd s1 @ evs2" "mapper_events evs2" "no_failure evs2 \<longleftrightarrow> \<not> isl r" by auto
    with e1 Inr have "snd s' = snd s @ (evs1 @ evs2) \<and> mapper_events (evs1 @ evs2) \<and>
        (no_failure (evs1 @ evs2) \<longleftrightarrow> \<not> isl r)"
      by (simp add: mapper_events_append no_failure_append)
    then show ?thesis by blast
  qed
qed

lemma aggregates_loop_panic_log:
  "aggregates_loop m cs rvs s = Inl (p, s') \<Longrightarrow>
   \<exists>evs. snd s' = snd s @ evs \<and> mapper_events evs"
proof (induction cs arbitrary: rvs s)
  case Nil
  then show ?case by simp
next
  case (Cons crf cs)
  obtain c rf where crf: "crf = (c, rf)" by (cases crf)
  show ?case
  proof (cases "processAggregate m c rf rvs s")
    case (Inl x)
    with Cons.prems crf have "processAggregate m c rf rvs s = Inl (p, s')" by simp
    then show ?thesis by (rule processAggregate_panic_log)
  next
    case (Inr y)
    obtain r1 s1 where y: "y = (r1, s1)" by (cases y)
    from processAggregate_log [OF Inr [unfolded y]] obtain evs1 where
      e1: "snd s1 = snd s @ evs1" "mapper_events evs1" by auto
    from Cons.prems crf Inr y obtain rvs1 where "r1 = Inr rvs1" by (cases r1) auto
    with Cons.prems crf Inr y have "aggregates_loop m cs rvs1 s1 = Inl (p, s')" by simp
    from Cons.IH [OF this] obtain evs2 where "snd s' = snd s1 @ evs2" "mapper_events evs2" by auto
    with e1 have "snd s' = snd s @ (evs1 @ evs2) \<and> mapper_events (evs1 @ evs2)"
      by (simp add: mapper_events_append)
    then show ?thesis by blast
  qed
qed

subsection \<open>The shape of the buckets\<close>

lemma bucket_loop_shape:
  "bucket_loop ms iv rf rvs s = Inr (Inr rvs', s') \<Longrightarrow>
   list_all2 (\<lambda>rv rv'. \<exists>v. rv' = rv @ [v]) rvs rvs'"
proof (induction rvs arbitrary: s rvs')
  case Nil
  then show ?case by simp
next
  case (Cons rv rvs)
  obtain r1 s1 where ni: "NextInterval_loop ms iv s = (r1, s1)"
    by (cases "NextInterval_loop ms iv s")
  with Cons.prems obtain outs where outs: "r1 = Inr outs" by (cases r1) auto
  with Cons.prems ni obtain f where f: "rf = Some f" by (cases rf) auto
  with Cons.prems ni outs obtain rvs2 where
    rec: "bucket_loop ms iv rf rvs s1 = Inr (Inr rvs2, s')" and eq: "rvs' = (rv @ [f outs]) # rvs2"
    by (auto split: sum.splits)
  from Cons.IH [OF rec] eq show ?case by simp
qed

lemma processAggregate_shape:
  "processAggregate m c rf rvs s = Inr (Inr rvs', s') \<Longrightarrow>
   list_all2 (\<lambda>rv rv'. \<exists>v. rv' = rv @ [v]) rvs rvs'"
  by (auto simp: processAggregate_def split: prod.splits option.splits dest: bucket_loop_shape)

lemma aggregates_loop_shape:
  "aggregates_loop m cs rvs s = Inr (Inr rvs', s') \<Longrightarrow>
   list_all2 (\<lambda>rv rv'. \<exists>vs. length vs = length cs \<and> rv' = rv @ vs) rvs rvs'"
proof (induction cs arbitrary: rvs s)
  case Nil
  then show ?case by (simp add: list_all2_same)
next
  case (Cons crf cs)
  obtain c rf where crf: "crf = (c, rf)" by (cases crf)
  from Cons.prems crf obtain rvs1 s1 where
    pa: "processAggregate m c rf rvs s = Inr (Inr rvs1, s1)" and
    rec: "aggregates_loop m cs rvs1 s1 = Inr (Inr rvs', s')"
    by (auto split: sum.splits)
  have a: "list_all2 (\<lambda>rv rv'. \<exists>v. rv' = rv @ [v]) rvs rvs1"
    by (rule processAggregate_shape [OF pa])
  have b: "list_all2 (\<lambda>rv rv'. \<exists>vs. length vs = length cs \<and> rv' = rv @ vs) rvs1 rvs'"
    by (rule Cons.IH [OF rec])
  from a b have len: "length rvs = length rvs'"
    by (simp add: list_all2_lengthD)
  show ?case
  proof (rule list_all2_all_nthI [OF len])
    fix n assume n: "n < length rvs"
    from a n obtain v where v: "rvs1 ! n = rvs ! n @ [v]"
      by (auto simp: list_all2_conv_all_nth)
    from a b n obtain vs where vs: "length vs = length cs" "rvs' ! n = rvs1 ! n @ vs"
      by (auto simp: list_all2_conv_all_nth)
    from v vs have "length (v # vs) = length (crf # cs) \<and> rvs' ! n = rvs ! n @ (v # vs)"
      by simp
    then show "\<exists>vs. length vs = length (crf # cs) \<and> rvs' ! n = rvs ! n @ vs" by blast
  qed
qed

lemma init_loop_length: "init_loop irf cs = Inr rfs \<Longrightarrow> length rfs = length cs"
  by (induction cs arbitrary: rfs) (auto split: prod.splits option.splits sum.splits)

text \<open>
  \<^verbatim>\<open>Execute\<close> by its paths.
\<close>

lemma Execute_unfold:
  "Execute irf maxLen m s =
     (case init_loop irf (AggregateCalls (stmt m)) of
        Inl err \<Rightarrow> Inr (m, send (Row_zero\<lparr>Err := Some err\<rparr>) s)
      | Inr rfs \<Rightarrow>
          if pointCountInResult m < 0 \<or> maxLen < pointCountInResult m
          then Inl (MakeSliceLen, m\<lparr>interval := effective_interval m\<rparr>, s)
          else
            (case run_aggregates irf m rfs s of
               Inl (p, s1) \<Rightarrow> Inl (p, m\<lparr>interval := effective_interval m\<rparr>, s1)
             | Inr (Inl err, s1) \<Rightarrow>
                 Inr (m\<lparr>interval := effective_interval m\<rparr>,
                      send (Row_zero\<lparr>Name := MeasurementName m,
                                     Tags := TagSet_Tags (TagSet m), Err := Some err\<rparr>) s1)
             | Inr (Inr rv, s1) \<Rightarrow>
                 if AggregateCalls (stmt m) = [] then
                   (case processRawResults (m\<lparr>interval := effective_interval m\<rparr>) rv of
                      Inl p \<Rightarrow> Inl (p, m\<lparr>interval := effective_interval m\<rparr>, s1)
                    | Inr row \<Rightarrow> Inr (m\<lparr>interval := effective_interval m\<rparr>, send row s1))
                 else
                   Inr (m\<lparr>interval := effective_interval m\<rparr>,
                        send \<lparr>Name = MeasurementName m, Tags = TagSet_Tags (TagSet m),
                              Columns = ''time'' # map Call_Name (AggregateCalls (stmt m)),
                              Values = rv, Err = None\<rparr> s1)))"
  unfolding Execute_def run_aggregates_def Let_def
  by (simp del: aggregates_loop.simps split: sum.splits prod.splits)

lemma run_aggregates_log:
  "run_aggregates irf m rfs s = Inr (r, s') \<Longrightarrow>
   \<exists>evs. snd s' = snd s @ evs \<and> mapper_events evs \<and> (no_failure evs \<longleftrightarrow> \<not> isl r)"
  unfolding run_aggregates_def by (rule aggregates_loop_log)

lemma run_aggregates_panic_log:
  "run_aggregates irf m rfs s = Inl (p, s') \<Longrightarrow> \<exists>evs. snd s' = snd s @ evs \<and> mapper_events evs"
  unfolding run_aggregates_def by (rule aggregates_loop_panic_log)

lemma init_loop_ok:
  "(\<exists>rfs. init_loop irf cs = Inr rfs) \<longleftrightarrow> (\<forall>c\<in>set cs. snd (irf (Some c)) = None)"
  by (induction cs) (auto split: prod.splits option.splits sum.splits)

lemma run_aggregates_shape:
  assumes "run_aggregates irf m rfs s = Inr (Inr rv, s')"
    and "init_loop irf (AggregateCalls (stmt m)) = Inr rfs"
    and "AggregateCalls (stmt m) \<noteq> []"
  shows "length rv = nat (pointCountInResult m)"
    and "\<forall>i<length rv. \<exists>vs. length vs = length (AggregateCalls (stmt m)) \<and>
           rv ! i = VTime (add64 (TMin m) (mul64 (int i) (effective_interval m))) # vs"
proof -
  let ?m' = "m\<lparr>interval := effective_interval m\<rparr>"
  let ?init = "init_resultValues ?m' (nat (pointCountInResult m))"
  have len: "length rfs = length (AggregateCalls (stmt m))"
    by (rule init_loop_length [OF assms(2)])
  from assms(1,3) have
    "aggregates_loop ?m' (zip (map Some (AggregateCalls (stmt m))) rfs) ?init s = Inr (Inr rv, s')"
    by (simp add: run_aggregates_def)
  from aggregates_loop_shape [OF this] len have
    sh: "list_all2 (\<lambda>rv rv'. \<exists>vs. length vs = length (AggregateCalls (stmt m)) \<and> rv' = rv @ vs) ?init rv"
    by simp
  then have "length ?init = length rv" by (rule list_all2_lengthD)
  then show l: "length rv = nat (pointCountInResult m)"
    by (simp add: init_resultValues_def)
  show "\<forall>i<length rv. \<exists>vs. length vs = length (AggregateCalls (stmt m)) \<and>
           rv ! i = VTime (add64 (TMin m) (mul64 (int i) (effective_interval m))) # vs"
  proof (intro allI impI)
    fix i assume i: "i < length rv"
    with sh obtain vs where "length vs = length (AggregateCalls (stmt m))" "rv ! i = ?init ! i @ vs"
      by (auto simp: list_all2_conv_all_nth)
    moreover from i l have "?init ! i = [VTime (add64 (TMin m) (mul64 (int i) (effective_interval m)))]"
      by (simp add: init_resultValues_def)
    ultimately show "\<exists>vs. length vs = length (AggregateCalls (stmt m)) \<and>
           rv ! i = VTime (add64 (TMin m) (mul64 (int i) (effective_interval m))) # vs"
      by simp
  qed
qed

subsection \<open>The bucket arithmetic\<close>

lemma wrap64_id: "in_int64 x \<Longrightarrow> wrap64 x = x"
  by (simp add: in_int64_def wrap64_def)

lemma wrap64_high:
  assumes "2 ^ 63 \<le> x" "x < 2 ^ 63 + 2 ^ 64"
  shows "wrap64 x = x - 2 ^ 64"
proof -
  have "(x + 2 ^ 63) mod 2 ^ 64 = (x + 2 ^ 63 - 2 ^ 64) mod 2 ^ 64"
    by (metis minus_mod_self2)
  also have "\<dots> = x + 2 ^ 63 - 2 ^ 64"
    using assms by (intro mod_pos_pos_trivial) auto
  finally show ?thesis by (simp add: wrap64_def)
qed

lemma wrap64_add_left: "wrap64 (wrap64 a + b) = wrap64 (a + b)"
proof -
  have "wrap64 a + b + 2 ^ 63 = (a + 2 ^ 63) mod 2 ^ 64 + b"
    unfolding wrap64_def by linarith
  then have "(wrap64 a + b + 2 ^ 63) mod 2 ^ 64 = ((a + 2 ^ 63) mod 2 ^ 64 + b) mod 2 ^ 64"
    by (rule arg_cong)
  also have "\<dots> = (a + 2 ^ 63 + b) mod 2 ^ 64"
    by (rule mod_add_left_eq)
  also have "a + 2 ^ 63 + b = a + b + 2 ^ 63" by linarith
  finally show ?thesis unfolding wrap64_def by (rule arg_cong)
qed

lemma wrap64_sub_left: "wrap64 (wrap64 a - b) = wrap64 (a - b)"
  using wrap64_add_left [of a "- b"] by simp

lemma div_mult_le_int: "0 < (b::int) \<Longrightarrow> a div b * b \<le> a"
proof -
  assume b: "0 < b"
  have "a div b * b + a mod b = a" by simp
  moreover have "0 \<le> a mod b" using b by simp
  ultimately show ?thesis by linarith
qed

lemma div_mult_gt_int: "0 < (b::int) \<Longrightarrow> a < a div b * b + b"
proof -
  assume b: "0 < b"
  have "a div b * b + a mod b = a" by simp
  moreover have "a mod b < b" using b by simp
  ultimately show ?thesis by linarith
qed

lemma div_le_self_int: "0 \<le> (a::int) \<Longrightarrow> 0 < b \<Longrightarrow> a div b \<le> a"
proof -
  assume a: "0 \<le> a" and b: "0 < b"
  have "0 \<le> a div b" using a b by (simp add: pos_imp_zdiv_nonneg_iff)
  then have "a div b * 1 \<le> a div b * b" using b by (intro mult_left_mono) auto
  with div_mult_le_int [OF b, of a] show ?thesis by simp
qed

lemma tquot_nonneg: "0 \<le> a \<Longrightarrow> 0 < b \<Longrightarrow> tquot a b = a div b"
  by (cases "a = 0") (simp_all add: tquot_def)

lemma tquot_neg: "a < 0 \<Longrightarrow> 0 < b \<Longrightarrow> tquot a b = - ((- a) div b)"
  by (simp add: tquot_def)

lemma tquot_bounds:
  assumes "0 < b"
  shows "(0 \<le> a \<longrightarrow> 0 \<le> tquot a b \<and> tquot a b \<le> a \<and> 0 \<le> tquot a b * b \<and> tquot a b * b \<le> a) \<and>
         (a < 0 \<longrightarrow> a \<le> tquot a b \<and> tquot a b \<le> 0 \<and> a \<le> tquot a b * b \<and> tquot a b * b \<le> 0) \<and>
         a < tquot a b * b + b"
proof (cases "0 \<le> a")
  case True
  then have q: "tquot a b = a div b" using assms by (rule tquot_nonneg)
  have "0 \<le> a div b" using True assms by (simp add: pos_imp_zdiv_nonneg_iff)
  moreover have "a div b \<le> a" using True assms by (rule div_le_self_int)
  moreover have "0 \<le> a div b * b" using \<open>0 \<le> a div b\<close> assms by simp
  moreover have "a div b * b \<le> a" using assms by (rule div_mult_le_int)
  moreover have "a < a div b * b + b" using assms by (rule div_mult_gt_int)
  ultimately show ?thesis using True q by simp
next
  case False
  then have neg: "a < 0" by simp
  then have q: "tquot a b = - ((- a) div b)" using assms by (rule tquot_neg)
  define c where "c = (- a) div b"
  have c0: "0 \<le> c" using neg assms by (simp add: c_def pos_imp_zdiv_nonneg_iff)
  have c1: "c \<le> - a" unfolding c_def using neg assms by (intro div_le_self_int) auto
  have c2: "c * b \<le> - a" unfolding c_def using assms by (rule div_mult_le_int)
  have c3: "0 \<le> c * b" using c0 assms by simp
  have "a \<le> - c" using c1 by simp
  moreover have "- c \<le> 0" using c0 by simp
  moreover have "a \<le> - c * b" using c2 by simp
  moreover have "- c * b \<le> 0" using c3 by simp
  moreover have "a < - c * b + b" using c2 assms by simp
  ultimately show ?thesis using neg q by (simp add: c_def)
qed

lemma quo64_tquot: "in_int64 a \<Longrightarrow> 0 < b \<Longrightarrow> quo64 a b = tquot a b"
proof -
  assume a: "in_int64 a" and b: "0 < b"
  from tquot_bounds [OF b, of a] a have "in_int64 (tquot a b)"
    by (cases "0 \<le> a") (auto simp: in_int64_def)
  then show ?thesis by (simp add: quo64_def tquot_def [symmetric] wrap64_id)
qed

lemma quo64_nonneg:
  assumes "0 \<le> a" "0 < b" "a < 2 ^ 63"
  shows "quo64 a b = a div b"
proof -
  have "in_int64 a" using assms by (simp add: in_int64_def)
  then show ?thesis using assms by (simp add: quo64_tquot tquot_nonneg)
qed

lemma pointCount_span:
  assumes "times_in_range m" "\<not> single_bucket m"
  shows "0 < span m" and "span m < 2 ^ 63 + 2 ^ 64"
    and "pointCountInResult m = quo64 (wrap64 (span m)) (interval m)"
    and "in_int64 (tquot (TMax m) (interval m) * interval m)"
    and "tquot (TMax m) (interval m) * interval m - TMin m < 2 ^ 64"
proof -
  let ?I = "interval m" and ?T = "TMax m"
  from assms have I: "0 < ?I" and le: "TMin m \<le> ?T" and
    tT: "in_int64 ?T" and tM: "in_int64 (TMin m)" and tI: "in_int64 ?I"
    by (auto simp: times_in_range_def single_bucket_def)
  note tb = tquot_bounds [OF I, of ?T]
  have q: "quo64 ?T ?I = tquot ?T ?I" using tT I by (rule quo64_tquot)
  show p: "in_int64 (tquot ?T ?I * ?I)"
    using tb tT by (cases "0 \<le> ?T") (auto simp: in_int64_def)
  then have mq: "mul64 (tquot ?T ?I) ?I = tquot ?T ?I * ?I" by (simp add: mul64_def wrap64_id)
  have "sub64 (add64 (mul64 (quo64 ?T ?I) ?I) ?I) (TMin m) = wrap64 (span m)"
    by (simp add: q mq add64_def sub64_def wrap64_sub_left span_def)
  then show "pointCountInResult m = quo64 (wrap64 (span m)) ?I"
    using assms(2) by (simp add: pointCountInResult_def Let_def)
  show "0 < span m" using tb le by (simp add: span_def)
  show "span m < 2 ^ 63 + 2 ^ 64" using p tI tM by (simp add: span_def in_int64_def)
  show "tquot ?T ?I * ?I - TMin m < 2 ^ 64" using p tM by (simp add: in_int64_def)
qed

lemma pointCount_no_overflow:
  assumes "times_in_range m" "\<not> single_bucket m" "span m < 2 ^ 63"
  shows "pointCountInResult m = span m div interval m" and "0 \<le> pointCountInResult m"
proof -
  from assms have I: "0 < interval m" by (auto simp: times_in_range_def single_bucket_def)
  note ps = pointCount_span [OF assms(1,2)]
  have "in_int64 (span m)" using ps(1) assms(3) by (simp add: in_int64_def)
  then have "wrap64 (span m) = span m" by (rule wrap64_id)
  moreover have "quo64 (span m) (interval m) = span m div interval m"
    using ps(1) I assms(3) by (intro quo64_nonneg) auto
  ultimately show pc: "pointCountInResult m = span m div interval m" using ps(3) by simp
  show "0 \<le> pointCountInResult m" unfolding pc using ps(1) I by (simp add: pos_imp_zdiv_nonneg_iff)
qed

text \<open>
  When the distance does not fit, the count the code computes is not positive: no bucket then
  has a time that wraps.
\<close>

lemma pointCount_overflow:
  assumes "times_in_range m" "\<not> single_bucket m" "2 ^ 63 \<le> span m"
  shows "pointCountInResult m \<le> 0"
proof -
  from assms have I: "0 < interval m" by (auto simp: times_in_range_def single_bucket_def)
  note ps = pointCount_span [OF assms(1,2)]
  define d where "d = span m - 2 ^ 64"
  have w: "wrap64 (span m) = d" unfolding d_def using assms(3) ps(2) by (rule wrap64_high)
  have dr: "in_int64 d" using assms(3) ps(2) by (simp add: d_def in_int64_def)
  have dI: "d < interval m" using ps(5) by (simp add: d_def span_def)
  note tb = tquot_bounds [OF I, of d]
  have "tquot d (interval m) \<le> 0"
  proof (cases "0 \<le> d")
    case True
    then have "d div interval m = 0" using dI by (simp add: div_pos_pos_trivial)
    with True I show ?thesis by (simp add: tquot_nonneg)
  next
    case False
    with tb show ?thesis by simp
  qed
  with ps(3) w dr I show ?thesis by (simp add: quo64_tquot)
qed

lemma bucket_time_math:
  assumes "times_in_range m" "int i < pointCountInResult m"
  shows "add64 (TMin m) (mul64 (int i) (effective_interval m)) = TMin m + int i * effective_interval m"
proof (cases "single_bucket m")
  case True
  with assms(2) have "i = 0" by (simp add: pointCountInResult_def)
  moreover have "in_int64 0" by (simp add: in_int64_def)
  moreover have "in_int64 (TMin m)" using assms(1) by (simp add: times_in_range_def)
  ultimately show ?thesis by (simp add: add64_def mul64_def wrap64_id)
next
  case False
  let ?I = "interval m"
  from assms False have I: "0 < ?I" and tM: "in_int64 (TMin m)"
    by (auto simp: times_in_range_def single_bucket_def)
  note ps = pointCount_span [OF assms(1) False]
  have small: "span m < 2 ^ 63"
  proof (rule ccontr)
    assume "\<not> span m < 2 ^ 63"
    then have "2 ^ 63 \<le> span m" by simp
    from pointCount_overflow [OF assms(1) False this] assms(2) show False by simp
  qed
  note pc = pointCount_no_overflow [OF assms(1) False small]
  have "int i + 1 \<le> span m div ?I" using assms(2) pc(1) by simp
  then have "(int i + 1) * ?I \<le> span m div ?I * ?I"
    using I by (simp add: mult_right_mono)
  also have "\<dots> \<le> span m" using I by (rule div_mult_le_int)
  finally have b: "(int i + 1) * ?I \<le> span m" .
  define x where "x = int i * ?I"
  define p where "p = tquot (TMax m) ?I * ?I"
  have n0: "0 \<le> x" using I by (simp add: x_def)
  have up: "TMin m + x \<le> p" using b by (simp add: x_def p_def span_def algebra_simps)
  have pr: "in_int64 p" using ps(4) by (simp add: p_def)
  have "x \<le> span m" using b I by (simp add: x_def algebra_simps)
  then have "in_int64 x" using n0 small by (simp add: in_int64_def)
  moreover have "in_int64 (TMin m + x)" using n0 up tM pr by (simp add: in_int64_def)
  ultimately show ?thesis
    using False by (simp add: effective_interval_def add64_def mul64_def wrap64_id x_def)
qed

lemma span_positive_times:
  assumes "0 \<le> TMax m" "0 < interval m"
  shows "span m = TMax m div interval m * interval m + interval m - TMin m"
  using assms by (simp add: span_def tquot_nonneg)

subsection \<open>Calls that return\<close>

lemma bucket_loop_total:
  "\<exists>r s'. bucket_loop ms iv (Some f) rvs s = Inr (r, s')"
proof (induction rvs arbitrary: s)
  case Nil
  show ?case by simp
next
  case (Cons rv rvs)
  obtain r1 s1 where ni: "NextInterval_loop ms iv s = (r1, s1)"
    by (cases "NextInterval_loop ms iv s")
  show ?case
  proof (cases r1)
    case (Inl err)
    with ni show ?thesis by simp
  next
    case (Inr outs)
    from Cons.IH [of s1] obtain r2 s2 where "bucket_loop ms iv (Some f) rvs s1 = Inr (r2, s2)"
      by blast
    with ni Inr show ?thesis by (cases r2) simp_all
  qed
qed

lemma processAggregate_total:
  "\<exists>r s'. processAggregate m c (Some f) rvs s = Inr (r, s')"
proof -
  obtain e s1 where b: "Begin_loop (Mappers m) c (TMin m) s = (e, s1)"
    by (cases "Begin_loop (Mappers m) c (TMin m) s")
  show ?thesis
  proof (cases e)
    case None
    with b bucket_loop_total [of "Mappers m" "interval m" f rvs s1] show ?thesis
      by (simp add: processAggregate_def)
  next
    case (Some err)
    with b show ?thesis by (simp add: processAggregate_def)
  qed
qed

lemma aggregates_loop_total:
  "\<forall>crf\<in>set cs. snd crf \<noteq> None \<Longrightarrow> \<exists>r s'. aggregates_loop m cs rvs s = Inr (r, s')"
proof (induction cs arbitrary: rvs s)
  case Nil
  show ?case by simp
next
  case (Cons crf cs)
  obtain c rf where crf: "crf = (c, rf)" by (cases crf)
  with Cons.prems obtain f where f: "rf = Some f" by (cases rf) auto
  from processAggregate_total [of m c f rvs s] obtain r1 s1 where
    pa: "processAggregate m c (Some f) rvs s = Inr (r1, s1)" by blast
  show ?case
  proof (cases r1)
    case (Inl err)
    with pa crf f show ?thesis by simp
  next
    case (Inr rvs1)
    from Cons.prems have "\<forall>crf\<in>set cs. snd crf \<noteq> None" by simp
    from Cons.IH [OF this, of rvs1 s1] pa crf f Inr show ?thesis by simp
  qed
qed

lemma init_loop_defined:
  "init_loop irf cs = Inr rfs \<Longrightarrow>
   (\<forall>c\<in>set cs. snd (irf (Some c)) = None \<longrightarrow> fst (irf (Some c)) \<noteq> None) \<Longrightarrow>
   \<forall>rf\<in>set rfs. rf \<noteq> None"
proof (induction cs arbitrary: rfs)
  case Nil
  then show ?case by simp
next
  case (Cons c cs)
  obtain rf e where irf: "irf (Some c) = (rf, e)" by (cases "irf (Some c)")
  with Cons.prems(1) have e: "e = None" by (cases e) auto
  with Cons.prems(1) irf obtain rfs1 where r1: "init_loop irf cs = Inr rfs1" and eq: "rfs = rf # rfs1"
    by (auto split: sum.splits)
  from Cons.prems(2) irf e have "rf \<noteq> None" by auto
  moreover from Cons.IH [OF r1] Cons.prems(2) have "\<forall>rf\<in>set rfs1. rf \<noteq> None" by simp
  ultimately show ?case using eq by simp
qed

lemma run_aggregates_total_aggregate:
  assumes "AggregateCalls (stmt m) \<noteq> []" "reducers_ok irf m"
    "init_loop irf (AggregateCalls (stmt m)) = Inr rfs"
  shows "\<exists>r s'. run_aggregates irf m rfs s = Inr (r, s')"
proof -
  from init_loop_defined [OF assms(3)] assms(2) have "\<forall>rf\<in>set rfs. rf \<noteq> None"
    by (simp add: reducers_ok_def)
  then have "\<forall>crf\<in>set (zip (map Some (AggregateCalls (stmt m))) rfs). snd crf \<noteq> None"
    by (auto dest: set_zip_rightD)
  from aggregates_loop_total [OF this] assms(1) show ?thesis
    by (simp add: run_aggregates_def)
qed

lemma raw_vals_single:
  "snd v \<noteq> VNil \<Longrightarrow> raw_vals selectNames True v = Inr [VTime (fst v), snd v]"
  by (cases "snd v") (simp_all add: raw_vals_def)

lemma raw_loop_single:
  "\<forall>v\<in>set recs. snd v \<noteq> VNil \<Longrightarrow>
   raw_loop selectNames True recs acc = Inr (acc @ map (\<lambda>v. [VTime (fst v), snd v]) recs)"
  by (induction recs arbitrary: acc) (simp_all add: raw_vals_single)

lemma raw_vals_total:
  "payload_ok selectNames (snd v) \<Longrightarrow>
   \<exists>vals. raw_vals selectNames (length selectNames = 2) v = Inr vals"
  by (cases "snd v") (auto simp: raw_vals_def payload_ok_def split: if_splits)

lemma raw_loop_total:
  "\<forall>v\<in>set recs. payload_ok selectNames (snd v) \<Longrightarrow>
   \<exists>vs. raw_loop selectNames (length selectNames = 2) recs acc = Inr vs"
proof (induction recs arbitrary: acc)
  case Nil
  show ?case by simp
next
  case (Cons v recs)
  from Cons.prems raw_vals_total [of selectNames v] obtain vals where
    "raw_vals selectNames (length selectNames = 2) v = Inr vals" by auto
  moreover from Cons.IH [of "acc @ [vals]"] Cons.prems obtain vs where
    "raw_loop selectNames (length selectNames = 2) recs (acc @ [vals]) = Inr vs" by auto
  ultimately show ?case by simp
qed

lemma processRawResults_Columns:
  "processRawResults m rv = Inr row \<Longrightarrow> Columns row = raw_Columns (stmt m)"
  by (auto simp: processRawResults_def raw_Columns_def Let_def split: if_splits val.splits sum.splits)

lemma processRawResults_total:
  assumes "\<forall>v\<in>set recs. payload_ok (raw_Columns (stmt m)) (snd v)"
  shows "\<exists>row. processRawResults m [[t, VRaw recs]] = Inr row"
proof -
  from raw_loop_total [OF assms, of "[]"] obtain vs where
    "raw_loop (raw_Columns (stmt m)) (length (raw_Columns (stmt m)) = 2) recs [] = Inr vs" by blast
  then show ?thesis
    by (auto simp: processRawResults_def raw_Columns_def Let_def split: if_splits)
qed

lemma NextInterval_loop_outs:
  assumes "NextInterval_loop ms iv s = (Inr outs, s')"
    and "\<forall>mm\<in>set ms. \<forall>w. snd (fst (Mapper_NextInterval mm iv w)) = None \<longrightarrow>
           P (fst (fst (Mapper_NextInterval mm iv w)))"
  shows "\<forall>v\<in>set outs. P v"
  using assms
proof (induction ms arbitrary: s outs)
  case Nil
  then show ?case by simp
next
  case (Cons mm ms)
  obtain res e w1 where mb: "Mapper_NextInterval mm iv (fst s) = ((res, e), w1)"
    by (cases "Mapper_NextInterval mm iv (fst s)") auto
  from Cons.prems(1) mb have e: "e = None" by (cases e) (auto simp: call_NextInterval_def)
  from Cons.prems(2) mb e have p: "P res" by (auto dest!: bspec [where x = mm] spec [where x = "fst s"])
  from Cons.prems(1) mb e obtain outs1 s1 where
    rec: "NextInterval_loop ms iv s1 = (Inr outs1, s')" and eq: "outs = res # outs1"
    by (auto simp: call_NextInterval_def split: prod.splits sum.splits)
  from Cons.IH [OF rec] Cons.prems(2) have "\<forall>v\<in>set outs1. P v" by simp
  with p eq show ?case by simp
qed

lemma bucket_loop_values:
  assumes "bucket_loop ms iv (Some f) rvs s = Inr (Inr rvs', s')"
    and "\<forall>mm\<in>set ms. \<forall>w. snd (fst (Mapper_NextInterval mm iv w)) = None \<longrightarrow>
           P (fst (fst (Mapper_NextInterval mm iv w)))"
  shows "list_all2 (\<lambda>rv rv'. \<exists>outs. (\<forall>v\<in>set outs. P v) \<and> rv' = rv @ [f outs]) rvs rvs'"
  using assms(1)
proof (induction rvs arbitrary: s rvs')
  case Nil
  then show ?case by simp
next
  case (Cons rv rvs)
  obtain r1 s1 where ni: "NextInterval_loop ms iv s = (r1, s1)"
    by (cases "NextInterval_loop ms iv s")
  with Cons.prems obtain outs where outs: "r1 = Inr outs" by (cases r1) auto
  from NextInterval_loop_outs [OF ni [unfolded outs] assms(2)] have po: "\<forall>v\<in>set outs. P v" .
  from Cons.prems ni outs obtain rvs2 where
    rec: "bucket_loop ms iv (Some f) rvs s1 = Inr (Inr rvs2, s')" and eq: "rvs' = (rv @ [f outs]) # rvs2"
    by (auto split: sum.splits)
  from Cons.IH [OF rec] eq po show ?case by auto
qed

lemma run_aggregates_raw:
  assumes "AggregateCalls (stmt m) = []" "fst (irf None) = Some f"
    and "run_aggregates irf m [] s = Inr (Inr rv, s')"
    and "\<forall>mm\<in>set (Mappers m). \<forall>iv w. snd (fst (Mapper_NextInterval mm iv w)) = None \<longrightarrow>
           P (fst (fst (Mapper_NextInterval mm iv w)))"
  shows "\<exists>t outs. (\<forall>v\<in>set outs. P v) \<and> rv = [[VTime t, f outs]]"
proof -
  let ?m' = "m\<lparr>interval := effective_interval m\<rparr>"
  have pc: "pointCountInResult m = 1" using assms(1) by (simp add: pointCountInResult_def single_bucket_def)
  obtain t where init: "init_resultValues ?m' (nat (pointCountInResult m)) = [[VTime t]]"
    by (simp add: pc init_resultValues_def)
  from assms(1-3) have "processAggregate ?m' None (Some f) [[VTime t]] s = Inr (Inr rv, s')"
    by (auto simp: run_aggregates_def init split: sum.splits prod.splits)
  then obtain s1 where bl: "bucket_loop (Mappers ?m') (interval ?m') (Some f) [[VTime t]] s1 = Inr (Inr rv, s')"
    by (auto simp: processAggregate_def split: prod.splits option.splits)
  from assms(4) have "\<forall>mm\<in>set (Mappers ?m'). \<forall>w.
      snd (fst (Mapper_NextInterval mm (interval ?m') w)) = None \<longrightarrow>
      P (fst (fst (Mapper_NextInterval mm (interval ?m') w)))"
    by simp
  from bucket_loop_values [OF bl this] show ?thesis
    by (auto simp: list_all2_Cons1)
qed

lemma run_aggregates_total_raw:
  assumes "AggregateCalls (stmt m) = []" "fst (irf None) = Some f"
  shows "\<exists>r s'. run_aggregates irf m [] s = Inr (r, s')"
proof -
  have "\<forall>crf\<in>set [(None :: Call option, Some f)]. snd crf \<noteq> None" by simp
  from aggregates_loop_total [OF this] assms show ?thesis
    by (simp add: run_aggregates_def)
qed

text \<open>
  Mappers that never fail: no loop over them returns an error.
\<close>

lemma Begin_loop_ok:
  "\<forall>mm\<in>set ms. \<forall>w. fst (Mapper_Begin mm c t w) = None \<Longrightarrow> fst (Begin_loop ms c t s) = None"
proof (induction ms arbitrary: s)
  case Nil
  show ?case by simp
next
  case (Cons mm ms)
  obtain e w1 where mb: "Mapper_Begin mm c t (fst s) = (e, w1)" by (cases "Mapper_Begin mm c t (fst s)")
  with Cons.prems have "e = None" by (auto dest!: bspec [where x = mm] spec [where x = "fst s"])
  with mb Cons.IH Cons.prems show ?case by (simp add: call_Begin_def)
qed

lemma NextInterval_loop_ok:
  "\<forall>mm\<in>set ms. \<forall>w. snd (fst (Mapper_NextInterval mm iv w)) = None \<Longrightarrow>
   \<not> isl (fst (NextInterval_loop ms iv s))"
proof (induction ms arbitrary: s)
  case Nil
  show ?case by simp
next
  case (Cons mm ms)
  obtain res e w1 where mb: "Mapper_NextInterval mm iv (fst s) = ((res, e), w1)"
    by (cases "Mapper_NextInterval mm iv (fst s)") auto
  with Cons.prems have e: "e = None" by (auto dest!: bspec [where x = mm] spec [where x = "fst s"])
  let ?s1 = "(w1, snd s @ [EvNextInterval (mid mm) iv None])"
  from Cons.IH [of ?s1] Cons.prems have "\<not> isl (fst (NextInterval_loop ms iv ?s1))" by simp
  with mb e show ?case
    by (cases "NextInterval_loop ms iv ?s1") (auto simp: call_NextInterval_def split: sum.splits)
qed

lemma bucket_loop_ok:
  "\<forall>mm\<in>set ms. \<forall>w. snd (fst (Mapper_NextInterval mm iv w)) = None \<Longrightarrow>
   bucket_loop ms iv rf rvs s = Inr (r, s') \<Longrightarrow> \<not> isl r"
proof (induction rvs arbitrary: s r)
  case Nil
  then show ?case by auto
next
  case (Cons rv rvs)
  obtain r1 s1 where ni: "NextInterval_loop ms iv s = (r1, s1)"
    by (cases "NextInterval_loop ms iv s")
  with NextInterval_loop_ok [OF Cons.prems(1), of s] obtain outs where outs: "r1 = Inr outs"
    by (cases r1) auto
  with Cons.prems(2) ni obtain f where f: "rf = Some f" by (cases rf) auto
  with Cons.prems(2) ni outs obtain r2 where
    rec: "bucket_loop ms iv rf rvs s1 = Inr (r2, s')" and eq: "isl r = isl r2"
    by (auto split: sum.splits)
  from Cons.IH [OF Cons.prems(1) rec] eq show ?case by simp
qed

lemma processAggregate_ok:
  assumes "mappers_never_fail m" "processAggregate m c rf rvs s = Inr (r, s')"
  shows "\<not> isl r"
proof -
  from assms(1) have b: "\<forall>mm\<in>set (Mappers m). \<forall>w. fst (Mapper_Begin mm c (TMin m) w) = None"
    and n: "\<forall>mm\<in>set (Mappers m). \<forall>w. snd (fst (Mapper_NextInterval mm (interval m) w)) = None"
    by (auto simp: mappers_never_fail_def)
  obtain e s1 where bl: "Begin_loop (Mappers m) c (TMin m) s = (e, s1)"
    by (cases "Begin_loop (Mappers m) c (TMin m) s")
  with Begin_loop_ok [OF b, of s] have "e = None" by simp
  with assms(2) bl have "bucket_loop (Mappers m) (interval m) rf rvs s1 = Inr (r, s')"
    by (simp add: processAggregate_def)
  from bucket_loop_ok [OF n this] show ?thesis .
qed

lemma aggregates_loop_ok:
  "mappers_never_fail m \<Longrightarrow> aggregates_loop m cs rvs s = Inr (r, s') \<Longrightarrow> \<not> isl r"
proof (induction cs arbitrary: rvs s)
  case Nil
  then show ?case by auto
next
  case (Cons crf cs)
  obtain c rf where crf: "crf = (c, rf)" by (cases crf)
  from Cons.prems(2) crf obtain r1 s1 where pa: "processAggregate m c rf rvs s = Inr (r1, s1)"
    by (cases "processAggregate m c rf rvs s") auto
  from processAggregate_ok [OF Cons.prems(1) pa] obtain rvs1 where r1: "r1 = Inr rvs1"
    by (cases r1) auto
  with Cons.prems(2) crf pa have "aggregates_loop m cs rvs1 s1 = Inr (r, s')" by simp
  from Cons.IH [OF Cons.prems(1) this] show ?case .
qed

lemma run_aggregates_ok:
  assumes "mappers_never_fail m" "run_aggregates irf m rfs s = Inr (r, s')"
  shows "\<not> isl r"
proof -
  from assms(1) have "mappers_never_fail (m\<lparr>interval := effective_interval m\<rparr>)"
    by (simp add: mappers_never_fail_def)
  from aggregates_loop_ok [OF this assms(2) [unfolded run_aggregates_def]] show ?thesis .
qed

text \<open>
  A job that cannot panic returns, whatever its mappers do.
\<close>

lemma Execute_total:
  assumes "no_panic irf maxLen m"
  shows "\<exists>m' s'. Execute irf maxLen m s = Inr (m', s')"
proof (cases "init_loop irf (AggregateCalls (stmt m))")
  case (Inl err)
  then show ?thesis by (simp add: Execute_unfold)
next
  case (Inr rfs)
  show ?thesis
  proof (cases "AggregateCalls (stmt m) = []")
    case True
    with Inr have rfs: "rfs = []" by simp
    from assms True obtain f where f: "fst (irf None) = Some f" and
      ok: "\<forall>outs. (\<forall>v\<in>set outs. raw_output_ok (raw_Columns (stmt m)) v) \<longrightarrow>
             raw_records_ok (raw_Columns (stmt m)) (f outs)" and
      mp: "\<forall>mm\<in>set (Mappers m). \<forall>iv w. snd (fst (Mapper_NextInterval mm iv w)) = None \<longrightarrow>
             raw_output_ok (raw_Columns (stmt m)) (fst (fst (Mapper_NextInterval mm iv w)))" and
      ml: "1 \<le> maxLen"
      by (auto simp: no_panic_def raw_reducer_ok_def raw_mappers_ok_def)
    have pc: "pointCountInResult m = 1" using True by (simp add: pointCountInResult_def single_bucket_def)
    from run_aggregates_total_raw [where m = m and irf = irf and f = f and s = s, OF True f] obtain r s1 where
      ra: "run_aggregates irf m [] s = Inr (r, s1)" by blast
    show ?thesis
    proof (cases r)
      case (Inl err)
      with ra Inr rfs pc ml show ?thesis by (simp add: Execute_unfold)
    next
      case (Inr rv)
      with ra run_aggregates_raw [where m = m and irf = irf and f = f and
          P = "raw_output_ok (raw_Columns (stmt m))", OF True f _ mp]
      obtain t outs where po: "\<forall>v\<in>set outs. raw_output_ok (raw_Columns (stmt m)) v" and
        rv: "rv = [[VTime t, f outs]]"
        by blast
      from ok po have "raw_records_ok (raw_Columns (stmt m)) (f outs)" by blast
      then obtain recs where recs: "f outs = VRaw recs"
        "\<forall>v\<in>set recs. payload_ok (raw_Columns (stmt m)) (snd v)"
        by (cases "f outs") (auto simp: raw_records_ok_def)
      have "stmt (m\<lparr>interval := effective_interval m\<rparr>) = stmt m" by simp
      with processRawResults_total [of recs "m\<lparr>interval := effective_interval m\<rparr>" "VTime t"] recs(2)
      obtain row where "processRawResults (m\<lparr>interval := effective_interval m\<rparr>) [[VTime t, VRaw recs]] = Inr row"
        by auto
      with ra Inr rv recs(1) \<open>init_loop irf (AggregateCalls (stmt m)) = Inr rfs\<close> rfs pc True ml
      show ?thesis by (simp add: Execute_unfold)
    qed
  next
    case False
    with assms have ok: "reducers_ok irf m" and pc: "0 \<le> pointCountInResult m"
      "pointCountInResult m \<le> maxLen"
      by (auto simp: no_panic_def)
    from run_aggregates_total_aggregate [OF False ok Inr] obtain r s1 where
      ra: "run_aggregates irf m rfs s = Inr (r, s1)" by blast
    with Inr pc False show ?thesis
      by (cases r) (simp_all add: Execute_unfold)
  qed
qed

text \<open>
  A call that returns has sent one row, after its calls of the mappers.
\<close>

lemma Execute_one_send:
  assumes "Execute irf maxLen m s = Inr (m', s')"
  shows "\<exists>evs row. snd s' = snd s @ evs @ [EvSend row] \<and> mapper_events evs"
proof (cases "init_loop irf (AggregateCalls (stmt m))")
  case (Inl err)
  with assms have "snd s' = snd s @ [] @ [EvSend (Row_zero\<lparr>Err := Some err\<rparr>)]"
    by (auto simp: Execute_unfold send_def)
  with mapper_events_Nil show ?thesis by blast
next
  case (Inr rfs)
  with assms obtain r s1 row where ra: "run_aggregates irf m rfs s = Inr (r, s1)" and s': "s' = send row s1"
    by (auto simp: Execute_unfold split: if_splits sum.splits prod.splits)
  from run_aggregates_log [OF ra] obtain evs where "snd s1 = snd s @ evs" "mapper_events evs" by blast
  with s' have "snd s' = snd s @ evs @ [EvSend row] \<and> mapper_events evs" by (simp add: send_def)
  then show ?thesis by blast
qed

text \<open>
  A call that panics has sent no row.
\<close>

lemma Execute_panic_no_send:
  assumes "Execute irf maxLen m s = Inl (p, m', s')"
  shows "\<exists>evs. snd s' = snd s @ evs \<and> mapper_events evs"
proof (cases "init_loop irf (AggregateCalls (stmt m))")
  case (Inl err)
  with assms show ?thesis by (simp add: Execute_unfold)
next
  case (Inr rfs)
  show ?thesis
  proof (cases "pointCountInResult m < 0 \<or> maxLen < pointCountInResult m")
    case True
    with assms Inr have "s' = s" by (simp add: Execute_unfold)
    with mapper_events_Nil show ?thesis by auto
  next
    case False
    show ?thesis
    proof (cases "run_aggregates irf m rfs s")
      case (Inl x)
      with assms Inr False obtain p1 where "run_aggregates irf m rfs s = Inl (p1, s')"
        by (cases x) (simp add: Execute_unfold)
      then show ?thesis by (rule run_aggregates_panic_log)
    next
      case (Inr y)
      obtain r s1 where y: "y = (r, s1)" by (cases y)
      from run_aggregates_log [OF Inr [unfolded y]] obtain evs where
        e: "snd s1 = snd s @ evs" "mapper_events evs" by blast
      from assms \<open>init_loop irf (AggregateCalls (stmt m)) = Inr rfs\<close> False Inr y have "s' = s1"
        by (auto simp: Execute_unfold split: if_splits sum.splits)
      with e show ?thesis by blast
    qed
  qed
qed

lemma Execute_job:
  "Execute irf maxLen m s = Inr (m', s') \<or> Execute irf maxLen m s = Inl (p, m', s') \<Longrightarrow>
   m' = m \<or> m' = m\<lparr>interval := effective_interval m\<rparr>"
  by (auto simp: Execute_unfold split: if_splits sum.splits prod.splits)

subsection \<open>The row of a call\<close>

text \<open>
  The row of an aggregate job without error is the generic row, with the buckets as its
  values.
\<close>

lemma Execute_success_row:
  assumes "AggregateCalls (stmt m) \<noteq> []" "Execute irf maxLen m s = Inr (m', s')"
    "sent (snd s') = sent (snd s) @ [row]" "Err row = None"
  shows "\<exists>rfs rv s1. init_loop irf (AggregateCalls (stmt m)) = Inr rfs \<and>
           run_aggregates irf m rfs s = Inr (Inr rv, s1) \<and>
           row = \<lparr>Name = MeasurementName m, Tags = TagSet_Tags (TagSet m),
                  Columns = ''time'' # map Call_Name (AggregateCalls (stmt m)),
                  Values = rv, Err = None\<rparr>"
proof (cases "init_loop irf (AggregateCalls (stmt m))")
  case (Inl err)
  with assms(2) have "sent (snd s') = sent (snd s) @ [Row_zero\<lparr>Err := Some err\<rparr>]"
    by (auto simp: Execute_unfold send_def sent_append)
  with assms(3,4) show ?thesis by auto
next
  case (Inr rfs)
  with assms(2) obtain r s1 where ra: "run_aggregates irf m rfs s = Inr (r, s1)"
    by (auto simp: Execute_unfold split: if_splits sum.splits prod.splits)
  from run_aggregates_log [OF ra] obtain evs where "snd s1 = snd s @ evs" "mapper_events evs" by blast
  then have s1: "sent (snd s1) = sent (snd s)" by (simp add: sent_append mapper_events_sent)
  show ?thesis
  proof (cases r)
    case (Inl err)
    with assms(2) Inr ra have "s' = send (Row_zero\<lparr>Name := MeasurementName m,
        Tags := TagSet_Tags (TagSet m), Err := Some err\<rparr>) s1"
      by (auto simp: Execute_unfold split: if_splits)
    with s1 assms(3,4) show ?thesis by (auto simp: send_def sent_append)
  next
    case r: (Inr rv)
    with assms(1,2) Inr ra have "s' = send \<lparr>Name = MeasurementName m, Tags = TagSet_Tags (TagSet m),
        Columns = ''time'' # map Call_Name (AggregateCalls (stmt m)), Values = rv, Err = None\<rparr> s1"
      by (auto simp: Execute_unfold split: if_splits)
    with s1 assms(3) have "row = \<lparr>Name = MeasurementName m, Tags = TagSet_Tags (TagSet m),
        Columns = ''time'' # map Call_Name (AggregateCalls (stmt m)), Values = rv, Err = None\<rparr>"
      by (auto simp: send_def sent_append)
    with Inr ra r show ?thesis by blast
  qed
qed

text \<open>
  The row of an aggregate job: without error exactly when nothing failed, and then with one
  value row for each bucket.
\<close>

lemma Execute_row_cases:
  assumes "AggregateCalls (stmt m) \<noteq> []" "Execute irf maxLen m s = Inr (m', s')"
  shows "\<exists>evs row. snd s' = snd s @ evs @ [EvSend row] \<and> mapper_events evs \<and>
           (Err row = None \<longleftrightarrow>
              (\<forall>c\<in>set (AggregateCalls (stmt m)). snd (irf (Some c)) = None) \<and> no_failure evs) \<and>
           (case Err row of
              None \<Rightarrow> length (Values row) = nat (pointCountInResult m)
            | Some err \<Rightarrow> Values row = [])"
proof (cases "init_loop irf (AggregateCalls (stmt m))")
  case (Inl err)
  then have "\<not> (\<exists>rfs. init_loop irf (AggregateCalls (stmt m)) = Inr rfs)" by simp
  then have ni: "\<not> (\<forall>c\<in>set (AggregateCalls (stmt m)). snd (irf (Some c)) = None)"
    using init_loop_ok [of irf "AggregateCalls (stmt m)"] by simp
  let ?row = "Row_zero\<lparr>Err := Some err\<rparr>"
  from Inl assms(2) have l: "snd s' = snd s @ [] @ [EvSend ?row]"
    by (auto simp: Execute_unfold send_def)
  have e: "Err ?row = Some err" and v: "Values ?row = []" by (simp_all add: Row_zero_def)
  from e ni have i: "Err ?row = None \<longleftrightarrow>
      (\<forall>c\<in>set (AggregateCalls (stmt m)). snd (irf (Some c)) = None) \<and> no_failure []"
    by simp
  from e v have c: "case Err ?row of
              None \<Rightarrow> length (Values ?row) = nat (pointCountInResult m)
            | Some err \<Rightarrow> Values ?row = []"
    by simp
  from l mapper_events_Nil i c have "snd s' = snd s @ [] @ [EvSend ?row] \<and> mapper_events [] \<and>
           (Err ?row = None \<longleftrightarrow>
              (\<forall>c\<in>set (AggregateCalls (stmt m)). snd (irf (Some c)) = None) \<and> no_failure []) \<and>
           (case Err ?row of
              None \<Rightarrow> length (Values ?row) = nat (pointCountInResult m)
            | Some err \<Rightarrow> Values ?row = [])"
    by (intro conjI)
  then show ?thesis by (intro exI)
next
  case (Inr rfs)
  then have "\<exists>rfs. init_loop irf (AggregateCalls (stmt m)) = Inr rfs" by blast
  then have io: "\<forall>c\<in>set (AggregateCalls (stmt m)). snd (irf (Some c)) = None"
    using init_loop_ok [of irf "AggregateCalls (stmt m)"] by simp
  from Inr assms(2) obtain r s1 where ra: "run_aggregates irf m rfs s = Inr (r, s1)"
    by (auto simp: Execute_unfold split: if_splits sum.splits prod.splits)
  from run_aggregates_log [OF ra] obtain evs where
    lg: "snd s1 = snd s @ evs" and me: "mapper_events evs" and nf: "no_failure evs \<longleftrightarrow> \<not> isl r"
    by blast
  show ?thesis
  proof (cases r)
    case (Inl err)
    let ?row = "Row_zero\<lparr>Name := MeasurementName m, Tags := TagSet_Tags (TagSet m), Err := Some err\<rparr>"
    from Inl assms(2) Inr ra have "s' = send ?row s1"
      by (auto simp: Execute_unfold split: if_splits)
    with lg have "snd s' = snd s @ evs @ [EvSend ?row]" by (simp add: send_def)
    moreover have "Err ?row = Some err" "Values ?row = []" by (simp_all add: Row_zero_def)
    moreover have "\<not> no_failure evs" using nf Inl by simp
    ultimately have "snd s' = snd s @ evs @ [EvSend ?row] \<and> mapper_events evs \<and>
           (Err ?row = None \<longleftrightarrow>
              (\<forall>c\<in>set (AggregateCalls (stmt m)). snd (irf (Some c)) = None) \<and> no_failure evs) \<and>
           (case Err ?row of
              None \<Rightarrow> length (Values ?row) = nat (pointCountInResult m)
            | Some err \<Rightarrow> Values ?row = [])"
      using me by simp
    then show ?thesis by (intro exI)
  next
    case r: (Inr rv)
    let ?row = "\<lparr>Name = MeasurementName m, Tags = TagSet_Tags (TagSet m),
        Columns = ''time'' # map Call_Name (AggregateCalls (stmt m)), Values = rv, Err = None\<rparr>"
    from r assms Inr ra have "s' = send ?row s1"
      by (auto simp: Execute_unfold split: if_splits)
    with lg have "snd s' = snd s @ evs @ [EvSend ?row]" by (simp add: send_def)
    moreover have "no_failure evs" using nf r by simp
    moreover have "length rv = nat (pointCountInResult m)"
      by (rule run_aggregates_shape(1) [OF ra [unfolded r] Inr assms(1)])
    ultimately have "snd s' = snd s @ evs @ [EvSend ?row] \<and> mapper_events evs \<and>
           (Err ?row = None \<longleftrightarrow>
              (\<forall>c\<in>set (AggregateCalls (stmt m)). snd (irf (Some c)) = None) \<and> no_failure evs) \<and>
           (case Err ?row of
              None \<Rightarrow> length (Values ?row) = nat (pointCountInResult m)
            | Some err \<Rightarrow> Values ?row = [])"
      using me io by simp
    then show ?thesis by (intro exI)
  qed
qed

text \<open>
  A job whose reducers initialise and whose mappers never fail gets a row without error, with
  one value row for each bucket.
\<close>

lemma Execute_healthy:
  assumes "AggregateCalls (stmt m) \<noteq> []" "mappers_never_fail m"
    "\<forall>c\<in>set (AggregateCalls (stmt m)). snd (irf (Some c)) = None \<and> fst (irf (Some c)) \<noteq> None"
    "0 \<le> pointCountInResult m" "pointCountInResult m \<le> maxLen"
  shows "\<exists>m' s' evs row. Execute irf maxLen m s = Inr (m', s') \<and>
           snd s' = snd s @ evs @ [EvSend row] \<and> mapper_events evs \<and>
           Err row = None \<and> length (Values row) = nat (pointCountInResult m)"
proof -
  from assms(3) have "\<forall>c\<in>set (AggregateCalls (stmt m)). snd (irf (Some c)) = None" by blast
  then have "\<exists>rfs. init_loop irf (AggregateCalls (stmt m)) = Inr rfs"
    using init_loop_ok [of irf "AggregateCalls (stmt m)"] by simp
  then obtain rfs where init: "init_loop irf (AggregateCalls (stmt m)) = Inr rfs" by (elim exE)
  from assms(3) have ok: "reducers_ok irf m" by (simp add: reducers_ok_def)
  from run_aggregates_total_aggregate [OF assms(1) ok init] obtain r s1 where
    ra: "run_aggregates irf m rfs s = Inr (r, s1)" by blast
  from run_aggregates_ok [OF assms(2) ra] obtain rv where r: "r = Inr rv" by (cases r) auto
  from run_aggregates_log [OF ra] obtain evs where
    lg: "snd s1 = snd s @ evs" and me: "mapper_events evs" by blast
  have len: "length rv = nat (pointCountInResult m)"
    by (rule run_aggregates_shape(1) [OF ra [unfolded r] init assms(1)])
  let ?row = "\<lparr>Name = MeasurementName m, Tags = TagSet_Tags (TagSet m),
      Columns = ''time'' # map Call_Name (AggregateCalls (stmt m)), Values = rv, Err = None\<rparr>"
  have ex: "Execute irf maxLen m s = Inr (m\<lparr>interval := effective_interval m\<rparr>, send ?row s1)"
    using init ra r assms(1,4,5) by (simp add: Execute_unfold)
  have "Execute irf maxLen m s = Inr (m\<lparr>interval := effective_interval m\<rparr>, send ?row s1) \<and>
      snd (send ?row s1) = snd s @ evs @ [EvSend ?row] \<and> mapper_events evs \<and>
      Err ?row = None \<and> length (Values ?row) = nat (pointCountInResult m)"
    using ex lg me len by (simp add: send_def)
  then show ?thesis by (intro exI)
qed

subsection \<open>The executor\<close>

lemma processRawResults_Name_Tags:
  "processRawResults m rv = Inr row \<Longrightarrow>
   Name row = MeasurementName m \<and> Tags row = TagSet_Tags (TagSet m)"
  by (auto simp: processRawResults_def Let_def split: if_splits val.splits sum.splits)

lemma Execute_row_of_job:
  assumes "Execute irf maxLen m s = Inr (m', s')"
  shows "\<exists>evs row. snd s' = snd s @ evs @ [EvSend row] \<and> mapper_events evs \<and>
           row_of_job irf (stmt m) m row"
proof (cases "init_loop irf (AggregateCalls (stmt m))")
  case (Inl err)
  with assms have "snd s' = snd s @ [] @ [EvSend (Row_zero\<lparr>Err := Some err\<rparr>)]"
    by (auto simp: Execute_unfold send_def)
  moreover have "row_of_job irf (stmt m) m (Row_zero\<lparr>Err := Some err\<rparr>)"
    using Inl by (auto simp: row_of_job_def)
  ultimately show ?thesis using mapper_events_Nil by blast
next
  case (Inr rfs)
  with assms obtain r s1 row where ra: "run_aggregates irf m rfs s = Inr (r, s1)" and
    s': "s' = send row s1" and rj: "row_of_job irf (stmt m) m row"
    by (auto simp: Execute_unfold row_of_job_def Row_zero_def
        split: if_splits sum.splits prod.splits dest!: processRawResults_Name_Tags)
  from run_aggregates_log [OF ra] obtain evs where "snd s1 = snd s @ evs" "mapper_events evs" by blast
  with s' rj have "snd s' = snd s @ evs @ [EvSend row] \<and> mapper_events evs \<and>
      row_of_job irf (stmt m) m row"
    by (simp add: send_def)
  then show ?thesis by blast
qed

lemma mapper_events_no_close: "mapper_events evs \<Longrightarrow> EvCloseOut \<notin> set evs"
  by (auto simp: mapper_events_def)

lemma same_jobs_refl: "same_jobs h h"
proof -
  have "\<exists>iv. h j = (h j)\<lparr>interval := iv\<rparr>" for j
    by (rule exI [of _ "interval (h j)"]) simp
  then show ?thesis by (simp add: same_jobs_def)
qed

lemma same_jobs_trans: "same_jobs h h1 \<Longrightarrow> same_jobs h1 h2 \<Longrightarrow> same_jobs h h2"
proof -
  assume a: "same_jobs h h1" and b: "same_jobs h1 h2"
  have "\<exists>iv. h2 j = (h j)\<lparr>interval := iv\<rparr>" for j
  proof -
    from a obtain iv1 where "h1 j = (h j)\<lparr>interval := iv1\<rparr>" by (auto simp: same_jobs_def)
    moreover from b obtain iv2 where "h2 j = (h1 j)\<lparr>interval := iv2\<rparr>" by (auto simp: same_jobs_def)
    ultimately have "h2 j = (h j)\<lparr>interval := iv2\<rparr>" by simp
    then show ?thesis by blast
  qed
  then show ?thesis by (simp add: same_jobs_def)
qed

lemma same_jobs_fields:
  assumes "same_jobs h h'"
  shows "Mappers (h' j) = Mappers (h j)" "MeasurementName (h' j) = MeasurementName (h j)"
    "TagSet (h' j) = TagSet (h j)" "stmt (h' j) = stmt (h j)"
proof -
  from assms obtain iv where "h' j = (h j)\<lparr>interval := iv\<rparr>" by (auto simp: same_jobs_def)
  then show "Mappers (h' j) = Mappers (h j)" "MeasurementName (h' j) = MeasurementName (h j)"
    "TagSet (h' j) = TagSet (h j)" "stmt (h' j) = stmt (h j)"
    by simp_all
qed

lemma same_jobs_update:
  assumes "m' = h j \<or> m' = (h j)\<lparr>interval := iv\<rparr>"
  shows "same_jobs h (h(j := m'))"
proof -
  have "\<exists>iv. (h(j := m')) q = (h q)\<lparr>interval := iv\<rparr>" for q
  proof (cases "q = j")
    case True
    from assms show ?thesis
    proof
      assume "m' = h j"
      then have "(h(j := m')) q = (h q)\<lparr>interval := interval (h q)\<rparr>" using True by simp
      then show ?thesis by blast
    next
      assume "m' = (h j)\<lparr>interval := iv\<rparr>"
      then have "(h(j := m')) q = (h q)\<lparr>interval := iv\<rparr>" using True by simp
      then show ?thesis by blast
    qed
  next
    case False
    then have "(h(j := m')) q = (h q)\<lparr>interval := interval (h q)\<rparr>" by simp
    then show ?thesis by blast
  qed
  then show ?thesis by (simp add: same_jobs_def)
qed

lemma Execute_at_returns:
  assumes "Execute_at irf maxLen j c = Inr c'"
  shows "\<exists>m'. Execute irf maxLen (fst c j) (snd c) = Inr (m', snd c') \<and> fst c' = (fst c)(j := m')"
    and "same_jobs (fst c) (fst c')"
proof -
  from assms obtain m' s' where ex: "Execute irf maxLen (fst c j) (snd c) = Inr (m', s')" and
    c': "c' = ((fst c)(j := m'), s')"
    by (auto simp: Execute_at_def split: sum.splits prod.splits)
  then show "\<exists>m'. Execute irf maxLen (fst c j) (snd c) = Inr (m', snd c') \<and> fst c' = (fst c)(j := m')"
    by simp
  from Execute_job [of irf maxLen "fst c j" "snd c" m' s'] ex
  have "m' = fst c j \<or> m' = (fst c j)\<lparr>interval := effective_interval (fst c j)\<rparr>" by simp
  from same_jobs_update [where h = "fst c" and j = j and m' = m' and
      iv = "effective_interval (fst c j)", OF this] c'
  show "same_jobs (fst c) (fst c')" by simp
qed

lemma Execute_at_panics:
  assumes "Execute_at irf maxLen j c = Inl (p, c')"
  shows "\<exists>m'. Execute irf maxLen (fst c j) (snd c) = Inl (p, m', snd c') \<and> fst c' = (fst c)(j := m')"
    and "same_jobs (fst c) (fst c')"
proof -
  from assms obtain m' s' where ex: "Execute irf maxLen (fst c j) (snd c) = Inl (p, m', s')" and
    c': "c' = ((fst c)(j := m'), s')"
    by (auto simp: Execute_at_def split: sum.splits prod.splits)
  then show "\<exists>m'. Execute irf maxLen (fst c j) (snd c) = Inl (p, m', snd c') \<and> fst c' = (fst c)(j := m')"
    by simp
  from Execute_job [of irf maxLen "fst c j" "snd c" m' s' p] ex
  have "m' = fst c j \<or> m' = (fst c j)\<lparr>interval := effective_interval (fst c j)\<rparr>" by simp
  from same_jobs_update [where h = "fst c" and j = j and m' = m' and
      iv = "effective_interval (fst c j)", OF this] c'
  show "same_jobs (fst c) (fst c')" by simp
qed

lemma Execute_at_row:
  assumes "Execute_at irf maxLen j c = Inr c'"
  shows "\<exists>evs row. snd (snd c') = snd (snd c) @ evs @ [EvSend row] \<and> mapper_events evs \<and>
           row_of_job irf (stmt (fst c j)) (fst c j) row"
proof -
  from Execute_at_returns(1) [OF assms] obtain m' where
    "Execute irf maxLen (fst c j) (snd c) = Inr (m', snd c')" by blast
  then show ?thesis by (rule Execute_row_of_job)
qed

lemma row_of_job_same:
  "same_jobs h h' \<Longrightarrow> row_of_job irf (stmt (h' j)) (h' j) r = row_of_job irf (stmt (h j)) (h j) r"
  by (simp add: row_of_job_def same_jobs_fields)

lemma execute_loop_rows:
  "execute_loop irf maxLen js c = Inr c1 \<Longrightarrow>
   same_jobs (fst c) (fst c1) \<and>
   (\<exists>evs. snd (snd c1) = snd (snd c) @ evs \<and> length (sent evs) = length js \<and>
      EvCloseOut \<notin> set evs \<and>
      (\<forall>i<length js. row_of_job irf (stmt (fst c (js ! i))) (fst c (js ! i)) (sent evs ! i)))"
proof (induction js arbitrary: c)
  case Nil
  then show ?case by (simp add: same_jobs_refl)
next
  case (Cons j js)
  from Cons.prems obtain c2 where ex: "Execute_at irf maxLen j c = Inr c2" and
    rest: "execute_loop irf maxLen js c2 = Inr c1"
    by (auto split: sum.splits)
  note sj1 = Execute_at_returns(2) [OF ex]
  from Execute_at_row [OF ex] obtain evs1 row where
    l1: "snd (snd c2) = snd (snd c) @ evs1 @ [EvSend row]" and me: "mapper_events evs1" and
    rj: "row_of_job irf (stmt (fst c j)) (fst c j) row"
    by blast
  from Cons.IH [OF rest] obtain evs2 where
    sj2: "same_jobs (fst c2) (fst c1)" and
    l2: "snd (snd c1) = snd (snd c2) @ evs2" and len: "length (sent evs2) = length js" and
    nc: "EvCloseOut \<notin> set evs2" and
    rows: "\<forall>i<length js. row_of_job irf (stmt (fst c2 (js ! i))) (fst c2 (js ! i)) (sent evs2 ! i)"
    by blast
  let ?evs = "evs1 @ [EvSend row] @ evs2"
  have snt: "sent ?evs = row # sent evs2"
    using me by (simp add: sent_append mapper_events_sent)
  have a: "snd (snd c1) = snd (snd c) @ ?evs" using l1 l2 by simp
  have b: "length (sent ?evs) = length (j # js)" using snt len by simp
  have d: "EvCloseOut \<notin> set ?evs" using nc mapper_events_no_close [OF me] by simp
  have e: "\<forall>i<length (j # js).
      row_of_job irf (stmt (fst c ((j # js) ! i))) (fst c ((j # js) ! i)) (sent ?evs ! i)"
  proof (intro allI impI)
    fix i assume i: "i < length (j # js)"
    show "row_of_job irf (stmt (fst c ((j # js) ! i))) (fst c ((j # js) ! i)) (sent ?evs ! i)"
    proof (cases i)
      case 0
      with rj snt show ?thesis by simp
    next
      case (Suc k)
      with i rows have "row_of_job irf (stmt (fst c2 (js ! k))) (fst c2 (js ! k)) (sent evs2 ! k)"
        by simp
      then have "row_of_job irf (stmt (fst c (js ! k))) (fst c (js ! k)) (sent evs2 ! k)"
        by (simp add: row_of_job_same [OF sj1])
      with Suc snt show ?thesis by simp
    qed
  qed
  from same_jobs_trans [OF sj1 sj2] a b d e show ?case by blast
qed

text \<open>
  A list of distinct jobs that cannot panic runs to its end.
\<close>

lemma execute_loop_total:
  "distinct js \<Longrightarrow> \<forall>j\<in>set js. no_panic irf maxLen (fst c j) \<Longrightarrow>
   \<exists>c1. execute_loop irf maxLen js c = Inr c1"
proof (induction js arbitrary: c)
  case Nil
  have "execute_loop irf maxLen [] c = Inr c" by simp
  then show ?case by (rule exI)
next
  case (Cons j js)
  from Cons.prems have "no_panic irf maxLen (fst c j)" by simp
  from Execute_total [OF this] obtain m' s' where
    ex: "Execute irf maxLen (fst c j) (snd c) = Inr (m', s')" by blast
  let ?c2 = "((fst c)(j := m'), s')"
  have ea: "Execute_at irf maxLen j c = Inr ?c2" using ex by (simp add: Execute_at_def)
  from Cons.prems have "distinct js" and "j \<notin> set js" by simp_all
  moreover from Cons.prems \<open>j \<notin> set js\<close> have "\<forall>q\<in>set js. no_panic irf maxLen (fst ?c2 q)"
    by auto
  ultimately obtain c1 where "execute_loop irf maxLen js ?c2 = Inr c1"
    using Cons.IH [of ?c2] by blast
  with ea have "execute_loop irf maxLen (j # js) c = Inr c1" by simp
  then show ?case by (rule exI)
qed

text \<open>
  A loop that panics has not closed the channel and has sent fewer rows than there are jobs.
\<close>

lemma execute_loop_panic:
  "execute_loop irf maxLen js c = Inl (p, c1) \<Longrightarrow>
   same_jobs (fst c) (fst c1) \<and>
   (\<exists>evs. snd (snd c1) = snd (snd c) @ evs \<and> EvCloseOut \<notin> set evs \<and>
      length (sent evs) < length js)"
proof (induction js arbitrary: c)
  case Nil
  then show ?case by simp
next
  case (Cons j js)
  show ?case
  proof (cases "Execute_at irf maxLen j c")
    case (Inl x)
    with Cons.prems have ea: "Execute_at irf maxLen j c = Inl (p, c1)" by simp
    from Execute_at_panics(1) [OF ea] obtain m' where
      "Execute irf maxLen (fst c j) (snd c) = Inl (p, m', snd c1)" by blast
    from Execute_panic_no_send [OF this] obtain evs where
      "snd (snd c1) = snd (snd c) @ evs" "mapper_events evs" by blast
    then have "snd (snd c1) = snd (snd c) @ evs \<and> EvCloseOut \<notin> set evs \<and>
        length (sent evs) < length (j # js)"
      by (simp add: mapper_events_sent mapper_events_no_close)
    with Execute_at_panics(2) [OF ea] show ?thesis by blast
  next
    case (Inr c2)
    note sj1 = Execute_at_returns(2) [OF Inr]
    from Execute_at_row [OF Inr] obtain evs1 row where
      l1: "snd (snd c2) = snd (snd c) @ evs1 @ [EvSend row]" and me: "mapper_events evs1" by blast
    from Cons.prems Inr have "execute_loop irf maxLen js c2 = Inl (p, c1)" by simp
    from Cons.IH [OF this] obtain evs2 where
      sj2: "same_jobs (fst c2) (fst c1)" and
      l2: "snd (snd c1) = snd (snd c2) @ evs2" and nc: "EvCloseOut \<notin> set evs2" and
      len: "length (sent evs2) < length js" by blast
    let ?evs = "evs1 @ [EvSend row] @ evs2"
    have "snd (snd c1) = snd (snd c) @ ?evs" using l1 l2 by simp
    moreover have "EvCloseOut \<notin> set ?evs" using nc mapper_events_no_close [OF me] by simp
    moreover have "length (sent ?evs) < length (j # js)"
      using me len by (simp add: sent_append mapper_events_sent)
    ultimately show ?thesis using same_jobs_trans [OF sj1 sj2] by blast
  qed
qed

lemma jobs_run_in_turn_Cons:
  assumes "jobs_run_in_turn irf maxLen (j # js) cs rows"
  shows "\<exists>c0 cs1 row rows1. cs = c0 # cs1 \<and> rows = row # rows1 \<and> cs1 \<noteq> [] \<and>
           job_runs irf maxLen j c0 row (cs1 ! 0) \<and> jobs_run_in_turn irf maxLen js cs1 rows1"
proof -
  from assms have ls: "length cs = Suc (Suc (length js))" and lr: "length rows = Suc (length js)" and
    al: "\<forall>i<Suc (length js). job_runs irf maxLen ((j # js) ! i) (cs ! i) (rows ! i) (cs ! Suc i)"
    by (simp_all add: jobs_run_in_turn_def)
  from ls obtain c0 cs1 where cs: "cs = c0 # cs1" and l1: "length cs1 = Suc (length js)"
    by (cases cs) auto
  from lr obtain row rows1 where rows: "rows = row # rows1" and l2: "length rows1 = length js"
    by (cases rows) auto
  from al cs rows have h: "job_runs irf maxLen j c0 row (cs1 ! 0)"
    by (auto dest: spec [of _ 0])
  have "\<forall>i<length js. job_runs irf maxLen (js ! i) (cs1 ! i) (rows1 ! i) (cs1 ! Suc i)"
  proof (intro allI impI)
    fix i assume "i < length js"
    then have "Suc i < Suc (length js)" by simp
    with al have "job_runs irf maxLen ((j # js) ! Suc i) (cs ! Suc i) (rows ! Suc i) (cs ! Suc (Suc i))"
      by blast
    with cs rows show "job_runs irf maxLen (js ! i) (cs1 ! i) (rows1 ! i) (cs1 ! Suc i)" by simp
  qed
  with l1 l2 have "jobs_run_in_turn irf maxLen js cs1 rows1" by (simp add: jobs_run_in_turn_def)
  moreover from l1 have "cs1 \<noteq> []" by auto
  ultimately show ?thesis using cs rows h by blast
qed

text \<open>
  The loop of the executor is the run of its jobs in turn.
\<close>

lemma jobs_run_in_turn_loop:
  "jobs_run_in_turn irf maxLen js cs rows \<Longrightarrow>
   execute_loop irf maxLen js (cs ! 0) = Inr (last cs) \<and>
   (\<exists>evs. snd (snd (last cs)) = snd (snd (cs ! 0)) @ evs \<and> sent evs = rows \<and>
      EvCloseOut \<notin> set evs)"
proof (induction js arbitrary: cs rows)
  case Nil
  then have "length cs = 1" "rows = []" by (simp_all add: jobs_run_in_turn_def)
  then obtain c0 where "cs = [c0]" by (cases cs) auto
  with \<open>rows = []\<close> show ?case by simp
next
  case (Cons j js)
  from jobs_run_in_turn_Cons [OF Cons.prems] obtain c0 cs1 row rows1 where
    cs: "cs = c0 # cs1" and rows: "rows = row # rows1" and ne: "cs1 \<noteq> []" and
    jr: "job_runs irf maxLen j c0 row (cs1 ! 0)" and
    rest: "jobs_run_in_turn irf maxLen js cs1 rows1"
    by blast
  from jr obtain evs1 where ex: "Execute_at irf maxLen j c0 = Inr (cs1 ! 0)" and
    l1: "snd (snd (cs1 ! 0)) = snd (snd c0) @ evs1 @ [EvSend row]" and me: "mapper_events evs1"
    by (auto simp: job_runs_def)
  from Cons.IH [OF rest] obtain evs2 where
    lp: "execute_loop irf maxLen js (cs1 ! 0) = Inr (last cs1)" and
    l2: "snd (snd (last cs1)) = snd (snd (cs1 ! 0)) @ evs2" and snt: "sent evs2 = rows1" and
    nc: "EvCloseOut \<notin> set evs2"
    by blast
  let ?evs = "evs1 @ [EvSend row] @ evs2"
  have la: "last cs = last cs1" using cs ne by simp
  have a: "execute_loop irf maxLen (j # js) (cs ! 0) = Inr (last cs)"
    using ex lp cs la by simp
  have b: "snd (snd (last cs)) = snd (snd (cs ! 0)) @ ?evs" using l1 l2 cs la by simp
  have c: "sent ?evs = rows" using me snt rows by (simp add: sent_append mapper_events_sent)
  have d: "EvCloseOut \<notin> set ?evs" using nc mapper_events_no_close [OF me] by simp
  from a b c d show ?case by blast
qed

lemma execute_loop_in_turn:
  "execute_loop irf maxLen js c = Inr c' \<Longrightarrow>
   \<exists>cs rows. cs ! 0 = c \<and> jobs_run_in_turn irf maxLen js cs rows \<and> last cs = c'"
proof (induction js arbitrary: c)
  case Nil
  then have "[c] ! 0 = c \<and> jobs_run_in_turn irf maxLen [] [c] [] \<and> last [c] = c'"
    by (simp add: jobs_run_in_turn_def)
  then show ?case by blast
next
  case (Cons j js)
  from Cons.prems obtain c2 where ex: "Execute_at irf maxLen j c = Inr c2" and
    rest: "execute_loop irf maxLen js c2 = Inr c'"
    by (auto split: sum.splits)
  from Execute_at_row [OF ex] obtain evs row where
    "snd (snd c2) = snd (snd c) @ evs @ [EvSend row]" "mapper_events evs" by blast
  with ex have jr: "job_runs irf maxLen j c row c2" by (auto simp: job_runs_def)
  from Cons.IH [OF rest] obtain cs1 rows1 where
    h: "cs1 ! 0 = c2" and tr: "jobs_run_in_turn irf maxLen js cs1 rows1" and la: "last cs1 = c'"
    by blast
  from tr have l1: "length cs1 = Suc (length js)" and l2: "length rows1 = length js" and
    al: "\<forall>i<length js. job_runs irf maxLen (js ! i) (cs1 ! i) (rows1 ! i) (cs1 ! Suc i)"
    by (simp_all add: jobs_run_in_turn_def)
  have "\<forall>i<length (j # js).
      job_runs irf maxLen ((j # js) ! i) ((c # cs1) ! i) ((row # rows1) ! i) ((c # cs1) ! Suc i)"
  proof (intro allI impI)
    fix i assume i: "i < length (j # js)"
    show "job_runs irf maxLen ((j # js) ! i) ((c # cs1) ! i) ((row # rows1) ! i) ((c # cs1) ! Suc i)"
    proof (cases i)
      case 0
      with jr h show ?thesis by simp
    next
      case (Suc k)
      with i al show ?thesis by simp
    qed
  qed
  with l1 l2 have "jobs_run_in_turn irf maxLen (j # js) (c # cs1) (row # rows1)"
    by (simp add: jobs_run_in_turn_def)
  moreover from l1 la have "last (c # cs1) = c'" by auto
  ultimately have "(c # cs1) ! 0 = c \<and>
      jobs_run_in_turn irf maxLen (j # js) (c # cs1) (row # rows1) \<and> last (c # cs1) = c'"
    by simp
  then show ?case by blast
qed

lemma Close_log: "snd (Close j s) = snd s @ map (\<lambda>mm. EvClose (mid mm)) (Mappers j)"
  by (cases s) (simp add: Close_def Close_loop_eq)

lemma close_loop_log:
  "fst (close_loop js c) = fst c \<and> snd (snd (close_loop js c)) = snd (snd c) @ close_events (fst c) js"
  by (induction js arbitrary: c) (simp_all add: close_events_def Close_log Close_at_def)

lemma close_events_same: "same_jobs h h' \<Longrightarrow> close_events h' js = close_events h js"
  by (simp add: close_events_def same_jobs_fields)

lemma close_events_no_close_out: "EvCloseOut \<notin> set (close_events h js)"
  by (auto simp: close_events_def)

lemma close_events_sent: "sent (close_events h js) = []"
  by (rule mapper_events_sent) (auto simp: mapper_events_def close_events_def)

text \<open>
  A failed initialisation of a reducer: the bare error row is sent and nothing else happens.
\<close>

lemma Execute_init_failure:
  "init_loop irf (AggregateCalls (stmt m)) = Inl err \<Longrightarrow>
   Execute irf maxLen m s = Inr (m, send (Row_zero\<lparr>Err := Some err\<rparr>) s)"
  by (simp add: Execute_unfold)

text \<open>
  The job of two buckets, evaluated.
\<close>

lemma scenario3:
  "Execute example_registry example_maxLen scenario3_job (0, []) =
     Inr (scenario3_job,
          (2, [EvBegin 0 (Some \<lparr>Call_Name = ''sum'', Call_Args = [''value'']\<rparr>) 10 None,
               EvNextInterval 0 10 None, EvNextInterval 0 10 None,
               EvSend \<lparr>Name = ''m'', Tags = [''host'' \<mapsto> ''a''], Columns = [''time'', ''sum''],
                       Values = [[VTime 10, VNum 3], [VTime 20, VNum 7]], Err = None\<rparr>]))"
  by (simp add: scenario3_job_def example_job_def call_stmt_def example_registry_def replay_mapper_def sum_reduce_def example_maxLen_def
      Execute_def processAggregate_def pointCountInResult_def effective_interval_def single_bucket_def init_resultValues_def call_Begin_def call_NextInterval_def send_def add64_def sub64_def mul64_def quo64_def wrap64_def Row_zero_def Let_def upt_rec)

lemma Open_loop_log:
  "Open_loop m ms s = (r, s') \<Longrightarrow> \<exists>evs. snd s' = snd s @ evs \<and> mapper_events evs"
proof (induction ms arbitrary: s)
  case Nil
  then show ?case by (auto simp: mapper_events_def)
next
  case (Cons mm ms)
  obtain e w1 where mo: "Mapper_Open mm (fst s) = (e, w1)" by (cases "Mapper_Open mm (fst s)")
  let ?s1 = "(w1, snd s @ [EvOpen (mid mm)])"
  have me: "mapper_events [EvOpen (mid mm)]" by (simp add: mapper_events_def)
  show ?case
  proof (cases e)
    case None
    with Cons.prems mo have "Open_loop m ms ?s1 = (r, s')" by (simp add: call_Open_def)
    from Cons.IH [OF this] obtain evs where "snd s' = snd ?s1 @ evs" "mapper_events evs" by blast
    with me have "snd s' = snd s @ ([EvOpen (mid mm)] @ evs) \<and> mapper_events ([EvOpen (mid mm)] @ evs)"
      by (simp add: mapper_events_def)
    then show ?thesis by blast
  next
    case (Some err)
    with Cons.prems mo have "s' = Close m ?s1" by (auto simp: call_Open_def)
    then have "snd s' = snd s @ ([EvOpen (mid mm)] @ map (\<lambda>mm. EvClose (mid mm)) (Mappers m))"
      by (simp add: Close_log)
    moreover have "mapper_events ([EvOpen (mid mm)] @ map (\<lambda>mm. EvClose (mid mm)) (Mappers m))"
      by (auto simp: mapper_events_def)
    ultimately show ?thesis by blast
  qed
qed

lemma open_loop_log:
  "open_loop e js c = (None, c') \<Longrightarrow>
   fst c' = fst c \<and> (\<exists>evs. snd (snd c') = snd (snd c) @ evs \<and> mapper_events evs)"
proof (induction js arbitrary: c)
  case Nil
  then show ?case by (auto simp: mapper_events_def)
next
  case (Cons j js)
  from Cons.prems obtain c1 where o: "Open_at j c = (None, c1)" and
    rest: "open_loop e js c1 = (None, c')"
    by (auto split: prod.splits option.splits)
  from o have st: "fst c1 = fst c" and "Open_loop (fst c j) (Mappers (fst c j)) (snd c) = (None, snd c1)"
    by (auto simp: Open_at_def Open_def split: prod.splits)
  from Open_loop_log [OF this(2)] obtain evs1 where
    "snd (snd c1) = snd (snd c) @ evs1" "mapper_events evs1" by blast
  moreover from Cons.IH [OF rest] obtain evs2 where
    "fst c' = fst c1" "snd (snd c') = snd (snd c1) @ evs2" "mapper_events evs2" by blast
  ultimately have "fst c' = fst c \<and> snd (snd c') = snd (snd c) @ (evs1 @ evs2) \<and>
      mapper_events (evs1 @ evs2)"
    using st by (simp add: mapper_events_append)
  then show ?case by blast
qed

lemma Executor_Execute_rows:
  assumes "Executor_Execute irf maxLen e c = Inr (None, c')"
  shows "\<exists>rows. sent (snd (snd c')) = sent (snd (snd c)) @ rows \<and> length rows = length (jobs e) \<and>
           (\<forall>i<length (jobs e).
              row_of_job irf (stmt (fst c (jobs e ! i))) (fst c (jobs e ! i)) (rows ! i))"
proof -
  from assms obtain c0 c1 where op: "open_loop e (jobs e) c = (None, c0)" and
    lp: "execute_loop irf maxLen (jobs e) c0 = Inr c1" and
    c': "c' = close e (fst c1, close_out (snd c1))"
    by (auto simp: Executor_Execute_def execute_def split: prod.splits option.splits sum.splits)
  from open_loop_log [OF op] obtain evs0 where
    st: "fst c0 = fst c" and l0: "snd (snd c0) = snd (snd c) @ evs0" and m0: "mapper_events evs0"
    by blast
  from execute_loop_rows [OF lp] obtain evs where
    l1: "snd (snd c1) = snd (snd c0) @ evs" and len: "length (sent evs) = length (jobs e)" and
    rows: "\<forall>i<length (jobs e).
      row_of_job irf (stmt (fst c0 (jobs e ! i))) (fst c0 (jobs e ! i)) (sent evs ! i)"
    by blast
  have "snd (snd c') = snd (snd c) @ evs0 @ evs @ [EvCloseOut] @ close_events (fst c1) (jobs e)"
    using c' l0 l1 by (simp add: close_def close_loop_log close_out_def)
  then have "sent (snd (snd c')) = sent (snd (snd c)) @ sent evs"
    using m0 by (simp add: sent_append mapper_events_sent close_events_sent)
  with len rows st show ?thesis by auto
qed

lemma imprint_loop_at:
  "imprint_loop iv sel js h j =
     (if j \<in> set js then (h j)\<lparr>interval := iv, stmt := sel\<rparr> else h j)"
  by (induction js arbitrary: h) auto

lemma scenario3':
  "Execute example_registry example_maxLen scenario3_job (0, []) =
     Inr (scenario3_job, (2, scenario3_log))"
  by (simp add: scenario3 scenario3_log_def scenario3_calls_def scenario3_row_def)

lemma create_b_a:
  "CreateMapReduceJobs (example_tx [job_b, job_a]) (call_stmt ''sum'') [] blank_store =
     (([0, 1], store_b_a), None)"
  by (simp add: example_tx_def store_b_a_def job_a_def job_b_def example_job_def call_stmt_def upt_rec)

lemma plan_b_a:
  "Plan example_Reduce example_Normalize (example_planner [job_b, job_a]) (call_stmt ''sum'')
     blank_store = Inr (executor_b_a, store_b_a)"
proof -
  have "imprint_loop 0 (call_stmt ''sum'') [0, 1] store_b_a = store_b_a"
    by (auto simp: fun_eq_iff imprint_loop_at store_b_a_def job_a_def job_b_def example_job_def)
  moreover have "(call_stmt ''sum'')\<lparr>Condition := example_Reduce 0 (Condition (call_stmt ''sum''))\<rparr> =
      call_stmt ''sum''"
    by (simp add: example_Reduce_def)
  ultimately show ?thesis
    using create_b_a
    by (simp add: Plan_def Let_def example_planner_def example_Normalize_def executor_b_a_def)
qed

lemma run_b_a:
  "Executor_Execute example_registry example_maxLen executor_b_a (store_b_a, (0, [])) =
     Inr (None, (store_b_a_done, (1, log_b_a)))"
  by (simp add: job_a_def job_b_def executor_b_a_def store_b_a_def store_b_a_done_def example_job_def call_stmt_def row_a_def row_b_def sum_call_def log_b_a_def example_registry_def replay_mapper_def sum_reduce_def example_maxLen_def
      Executor_Execute_def execute_def close_def Close_at_def Open_at_def Execute_at_def Close_def Open_def call_Open_def call_Close_def close_out_def
      Execute_def processAggregate_def pointCountInResult_def effective_interval_def single_bucket_def init_resultValues_def call_Begin_def call_NextInterval_def send_def add64_def sub64_def mul64_def quo64_def wrap64_def Row_zero_def Let_def upt_rec fun_eq_iff)

text \<open>
  The two jobs of the executor, each evaluated in the state it is run in.
\<close>

lemma run_begin_fails:
  "Execute example_registry example_maxLen begin_fails_job (0, []) =
     Inr (begin_fails_job, (0, begin_fails_log))"
  by (simp add: begin_fails_log_def begin_fails_row_def sum_call_def begin_fails_job_def example_job_def call_stmt_def example_registry_def replay_mapper_def sum_reduce_def example_maxLen_def
      Execute_def processAggregate_def pointCountInResult_def effective_interval_def single_bucket_def init_resultValues_def call_Begin_def call_NextInterval_def send_def add64_def sub64_def mul64_def quo64_def wrap64_def Row_zero_def Let_def upt_rec)

lemma run_scenario3_after:
  "Execute example_registry example_maxLen scenario3_job (0, begin_fails_log) =
     Inr (scenario3_job, (2, begin_fails_log @ scenario3_log))"
  by (simp add: begin_fails_log_def begin_fails_row_def scenario3_log_def scenario3_calls_def scenario3_row_def
      sum_call_def scenario3_job_def example_job_def call_stmt_def example_registry_def replay_mapper_def sum_reduce_def example_maxLen_def
      Execute_def processAggregate_def pointCountInResult_def effective_interval_def single_bucket_def init_resultValues_def call_Begin_def call_NextInterval_def send_def add64_def sub64_def mul64_def quo64_def wrap64_def Row_zero_def Let_def upt_rec)

text \<open>
  The raw job, evaluated; it meets the conditions under which no statement panics.
\<close>

lemma run_raw_job:
  "Execute example_registry example_maxLen raw_job (0, []) =
     Inr (raw_job\<lparr>interval := 100\<rparr>, (1, raw_calls @ [EvSend raw_row]))"
  by (simp add: raw_job_def raw_calls_def raw_row_def example_job_def raw_stmt_def raw_Columns_def example_registry_def
      replay_mapper_def raw_reduce_def processRawResults_def raw_vals_def example_maxLen_def
      Execute_def processAggregate_def pointCountInResult_def effective_interval_def
      single_bucket_def init_resultValues_def call_Begin_def call_NextInterval_def send_def
      add64_def sub64_def mul64_def wrap64_def Let_def upt_rec)

lemma raw_reduce_ok:
  assumes "\<forall>v\<in>set outs. raw_output_ok selectNames v"
  shows "raw_records_ok selectNames (raw_reduce outs)"
proof -
  have "payload_ok selectNames (snd r)"
    if "r \<in> set (concat (map (\<lambda>v. case v of VRaw recs \<Rightarrow> recs | _ \<Rightarrow> []) outs))" for r
  proof -
    from that obtain v where v: "v \<in> set outs" and
      r: "r \<in> set (case v of VRaw recs \<Rightarrow> recs | _ \<Rightarrow> [])" by auto
    from r obtain recs where "v = VRaw recs" "r \<in> set recs" by (cases v) auto
    with assms v show ?thesis by (auto simp: raw_output_ok_def raw_records_ok_def)
  qed
  then show ?thesis by (simp add: raw_reduce_def raw_records_ok_def)
qed

lemma raw_job_no_panic: "no_panic example_registry example_maxLen raw_job"
proof -
  have a: "AggregateCalls (stmt raw_job) = []" by (simp add: raw_job_def example_job_def raw_stmt_def)
  have b: "raw_reducer_ok example_registry raw_job"
    unfolding raw_reducer_ok_def
    by (rule exI [of _ raw_reduce]) (simp add: example_registry_def raw_reduce_ok)
  have c: "raw_mappers_ok raw_job"
    by (auto simp: raw_mappers_ok_def raw_job_def example_job_def replay_mapper_def raw_stmt_def
        raw_Columns_def raw_output_ok_def raw_records_ok_def payload_ok_def)
  have d: "1 \<le> example_maxLen" by (simp add: example_maxLen_def)
  from a b c d show ?thesis by (simp add: no_panic_def)
qed

text \<open>
  The job whose count is negative, evaluated.
\<close>

lemma run_wrap_job:
  "Execute example_registry example_maxLen wrap_job (0, []) = Inl (MakeSliceLen, wrap_job, (0, []))"
  by (simp add: wrap_job_def example_job_def call_stmt_def example_registry_def replay_mapper_def sum_reduce_def example_maxLen_def
      Execute_def processAggregate_def pointCountInResult_def effective_interval_def single_bucket_def init_resultValues_def call_Begin_def call_NextInterval_def send_def add64_def sub64_def mul64_def quo64_def wrap64_def Row_zero_def Let_def upt_rec)

text \<open>
  An object that stands twice in the list is run the second time as its first run left it: the
  first run stores the interval \<open>TMax - TMin = 1\<close>, and the second, no longer a
  single bucket, has two buckets.
\<close>

lemma same_object_twice:
  "execute_loop example_registry example_maxLen [0, 0] (blank_store(0 := narrow_job), (0, [])) =
     Inr (blank_store(0 := narrow_job\<lparr>interval := 1\<rparr>),
          (2, [EvBegin 0 (Some sum_call) 10 None, EvNextInterval 0 1 None,
               EvSend \<lparr>Name = ''m'', Tags = [''host'' \<mapsto> ''a''], Columns = [''time'', ''sum''],
                       Values = [[VTime 10, VNum 3]], Err = None\<rparr>,
               EvBegin 0 (Some sum_call) 10 None, EvNextInterval 0 1 None, EvNextInterval 0 1 None,
               EvSend \<lparr>Name = ''m'', Tags = [''host'' \<mapsto> ''a''], Columns = [''time'', ''sum''],
                       Values = [[VTime 10, VNum 3], [VTime 11, VNum 7]], Err = None\<rparr>]))"
  by (simp add: narrow_job_def sum_call_def example_job_def call_stmt_def example_registry_def replay_mapper_def sum_reduce_def example_maxLen_def
      Execute_at_def Execute_def processAggregate_def pointCountInResult_def effective_interval_def single_bucket_def init_resultValues_def call_Begin_def call_NextInterval_def send_def add64_def sub64_def mul64_def quo64_def wrap64_def Row_zero_def Let_def upt_rec)

section \<open>The claims\<close>

subsection \<open>C1: the number of buckets\<close>

text \<open>
  Claim C1 (bucket count), amended. Take a job with a group-by interval \<open>I > 0\<close>,
  \<open>0 < TMin\<close> \<open>\<le> TMax\<close>, \<open>TMax\<close> and \<open>I\<close>
  values of \<^verbatim>\<open>int64\<close>, at least one aggregate call, and
  \<open>(TMax / I) * I + I - TMin\<close> inside \<^verbatim>\<open>int64\<close>. A call of
  \<^verbatim>\<open>Execute\<close> that returns has sent exactly one row, as its last
  effect. That row carries no error exactly when every reducer of the statement was
  initialised and no call of \<^verbatim>\<open>Begin\<close> or
  \<^verbatim>\<open>NextInterval\<close> of the run returned an error, and its
  \<^verbatim>\<open>Values\<close> then holds exactly
  \<open>((TMax / I) * I + I - TMin) / I\<close> value rows; when something failed, the row
  carries an error and no value row. The call returns whenever the registry gives no nil
  reducer and that count is within what \<^verbatim>\<open>make\<close> allocates. In
  particular, when no mapper of the job ever fails, every reducer is initialised without error
  and is not nil, and the count is within what \<^verbatim>\<open>make\<close> allocates, the
  call returns, and the row it has sent carries no error and exactly that many value rows.
\<close>

theorem Execute_bucket_count:
  assumes "0 < interval m" "0 < TMin m" "TMin m \<le> TMax m"
    "in_int64 (TMax m)" "in_int64 (interval m)"
    "AggregateCalls (stmt m) \<noteq> []"
    "TMax m div interval m * interval m + interval m - TMin m < 2 ^ 63"
  shows "(\<forall>m' s'. Execute irf maxLen m s = Inr (m', s') \<longrightarrow>
            (\<exists>evs row. snd s' = snd s @ evs @ [EvSend row] \<and> mapper_events evs \<and>
               (Err row = None \<longleftrightarrow>
                  (\<forall>c\<in>set (AggregateCalls (stmt m)). snd (irf (Some c)) = None) \<and>
                  (\<forall>e\<in>set evs. \<not> failed e)) \<and>
               (case Err row of
                  None \<Rightarrow> int (length (Values row)) =
                            (TMax m div interval m * interval m + interval m - TMin m) div interval m
                | Some err \<Rightarrow> Values row = []))) \<and>
         (reducers_ok irf m \<and>
          (TMax m div interval m * interval m + interval m - TMin m) div interval m \<le> maxLen \<longrightarrow>
            (\<exists>m' s'. Execute irf maxLen m s = Inr (m', s'))) \<and>
         (mappers_never_fail m \<and>
          (\<forall>c\<in>set (AggregateCalls (stmt m)).
             snd (irf (Some c)) = None \<and> fst (irf (Some c)) \<noteq> None) \<and>
          (TMax m div interval m * interval m + interval m - TMin m) div interval m \<le> maxLen \<longrightarrow>
            (\<exists>m' s' evs row. Execute irf maxLen m s = Inr (m', s') \<and>
               snd s' = snd s @ evs @ [EvSend row] \<and> mapper_events evs \<and> Err row = None \<and>
               int (length (Values row)) =
                 (TMax m div interval m * interval m + interval m - TMin m) div interval m))"
proof -
  have tr: "times_in_range m" using assms by (simp add: times_in_range_def in_int64_def)
  have ns: "\<not> single_bucket m" using assms by (simp add: single_bucket_def)
  have sp: "span m = TMax m div interval m * interval m + interval m - TMin m"
    using assms by (intro span_positive_times) auto
  with assms(7) have small: "span m < 2 ^ 63" by simp
  note pc = pointCount_no_overflow [OF tr ns small]
  have a: "\<forall>m' s'. Execute irf maxLen m s = Inr (m', s') \<longrightarrow>
            (\<exists>evs row. snd s' = snd s @ evs @ [EvSend row] \<and> mapper_events evs \<and>
               (Err row = None \<longleftrightarrow>
                  (\<forall>c\<in>set (AggregateCalls (stmt m)). snd (irf (Some c)) = None) \<and>
                  (\<forall>e\<in>set evs. \<not> failed e)) \<and>
               (case Err row of
                  None \<Rightarrow> int (length (Values row)) =
                            (TMax m div interval m * interval m + interval m - TMin m) div interval m
                | Some err \<Rightarrow> Values row = []))"
  proof (intro allI impI)
    fix m' s' assume ex: "Execute irf maxLen m s = Inr (m', s')"
    from Execute_row_cases [OF assms(6) ex] obtain evs row where
      al: "snd s' = snd s @ evs @ [EvSend row] \<and> mapper_events evs \<and>
           (Err row = None \<longleftrightarrow>
              (\<forall>c\<in>set (AggregateCalls (stmt m)). snd (irf (Some c)) = None) \<and> no_failure evs) \<and>
           (case Err row of
              None \<Rightarrow> length (Values row) = nat (pointCountInResult m)
            | Some err \<Rightarrow> Values row = [])"
      by (elim exE)
    then have lg: "snd s' = snd s @ evs @ [EvSend row]" and me: "mapper_events evs" and
      er: "Err row = None \<longleftrightarrow>
             (\<forall>c\<in>set (AggregateCalls (stmt m)). snd (irf (Some c)) = None) \<and> no_failure evs" and
      vs: "case Err row of
              None \<Rightarrow> length (Values row) = nat (pointCountInResult m)
            | Some err \<Rightarrow> Values row = []"
      by simp_all
    from vs pc sp
    have vs': "case Err row of
            None \<Rightarrow> int (length (Values row)) =
                      (TMax m div interval m * interval m + interval m - TMin m) div interval m
          | Some err \<Rightarrow> Values row = []"
      by (cases "Err row") simp_all
    from er have er': "Err row = None \<longleftrightarrow>
                  (\<forall>c\<in>set (AggregateCalls (stmt m)). snd (irf (Some c)) = None) \<and>
                  (\<forall>e\<in>set evs. \<not> failed e)"
      by (simp add: no_failure_def)
    from lg me er' vs' have c: "snd s' = snd s @ evs @ [EvSend row] \<and> mapper_events evs \<and>
               (Err row = None \<longleftrightarrow>
                  (\<forall>c\<in>set (AggregateCalls (stmt m)). snd (irf (Some c)) = None) \<and>
                  (\<forall>e\<in>set evs. \<not> failed e)) \<and>
               (case Err row of
                  None \<Rightarrow> int (length (Values row)) =
                            (TMax m div interval m * interval m + interval m - TMin m) div interval m
                | Some err \<Rightarrow> Values row = [])"
      by (intro conjI)
    show "\<exists>evs row. snd s' = snd s @ evs @ [EvSend row] \<and> mapper_events evs \<and>
               (Err row = None \<longleftrightarrow>
                  (\<forall>c\<in>set (AggregateCalls (stmt m)). snd (irf (Some c)) = None) \<and>
                  (\<forall>e\<in>set evs. \<not> failed e)) \<and>
               (case Err row of
                  None \<Rightarrow> int (length (Values row)) =
                            (TMax m div interval m * interval m + interval m - TMin m) div interval m
                | Some err \<Rightarrow> Values row = [])"
      by (rule exI [of _ evs], rule exI [of _ row], rule c)
  qed
  have b: "reducers_ok irf m \<and>
          (TMax m div interval m * interval m + interval m - TMin m) div interval m \<le> maxLen \<longrightarrow>
            (\<exists>m' s'. Execute irf maxLen m s = Inr (m', s'))"
  proof
    assume "reducers_ok irf m \<and>
          (TMax m div interval m * interval m + interval m - TMin m) div interval m \<le> maxLen"
    with assms(6) pc sp have "no_panic irf maxLen m" by (simp add: no_panic_def)
    then show "\<exists>m' s'. Execute irf maxLen m s = Inr (m', s')" by (rule Execute_total)
  qed
  have c: "mappers_never_fail m \<and>
          (\<forall>c\<in>set (AggregateCalls (stmt m)).
             snd (irf (Some c)) = None \<and> fst (irf (Some c)) \<noteq> None) \<and>
          (TMax m div interval m * interval m + interval m - TMin m) div interval m \<le> maxLen \<longrightarrow>
            (\<exists>m' s' evs row. Execute irf maxLen m s = Inr (m', s') \<and>
               snd s' = snd s @ evs @ [EvSend row] \<and> mapper_events evs \<and> Err row = None \<and>
               int (length (Values row)) =
                 (TMax m div interval m * interval m + interval m - TMin m) div interval m)"
  proof
    assume h: "mappers_never_fail m \<and>
          (\<forall>c\<in>set (AggregateCalls (stmt m)).
             snd (irf (Some c)) = None \<and> fst (irf (Some c)) \<noteq> None) \<and>
          (TMax m div interval m * interval m + interval m - TMin m) div interval m \<le> maxLen"
    then have h1: "mappers_never_fail m" and
      h2: "\<forall>c\<in>set (AggregateCalls (stmt m)).
             snd (irf (Some c)) = None \<and> fst (irf (Some c)) \<noteq> None" and
      h3: "pointCountInResult m \<le> maxLen"
      using pc sp by simp_all
    from Execute_healthy [OF assms(6) h1 h2 pc(2) h3, of s] obtain m' s' evs row where
      r: "Execute irf maxLen m s = Inr (m', s') \<and>
           snd s' = snd s @ evs @ [EvSend row] \<and> mapper_events evs \<and>
           Err row = None \<and> length (Values row) = nat (pointCountInResult m)"
      by (elim exE)
    with pc sp have "Execute irf maxLen m s = Inr (m', s') \<and>
               snd s' = snd s @ evs @ [EvSend row] \<and> mapper_events evs \<and> Err row = None \<and>
               int (length (Values row)) =
                 (TMax m div interval m * interval m + interval m - TMin m) div interval m"
      by simp
    then show "\<exists>m' s' evs row. Execute irf maxLen m s = Inr (m', s') \<and>
               snd s' = snd s @ evs @ [EvSend row] \<and> mapper_events evs \<and> Err row = None \<and>
               int (length (Values row)) =
                 (TMax m div interval m * interval m + interval m - TMin m) div interval m"
      by (intro exI)
  qed
  from a b c show ?thesis by (intro conjI)
qed

text \<open>
  The claim without the amendment fails in three places. The first job below has
  \<open>I = 10\<close>, \<open>TMin = 10\<close>, \<open>TMax = 29\<close> and one aggregate
  call, so the formula gives 2; its mapper's \<^verbatim>\<open>Begin\<close> fails, and the
  one row sent has the error and no value row. The second job has \<open>TMin = 1\<close>,
  \<open>TMax = 2^63 - 1\<close> and \<open>I = 3 * 2^61\<close>: the formula gives 1, but
  \<open>(TMax / I) * I + I - TMin\<close> does not fit \<^verbatim>\<open>int64\<close>, the
  upper edge wraps around, and the row sent, without error, has no value row. The third job
  has \<open>TMin = 1\<close>, \<open>TMax = 2^62\<close> and \<open>I = 1\<close>: the
  formula gives \<open>2^62\<close> value rows, more than \<^verbatim>\<open>make\<close>
  allocates, and the call panics before it sends a row.
\<close>

theorem bucket_count_counterexample:
  "0 < interval begin_fails_job \<and> 0 < TMin begin_fails_job \<and>
   AggregateCalls (stmt begin_fails_job) \<noteq> [] \<and>
   (TMax begin_fails_job div interval begin_fails_job * interval begin_fails_job
      + interval begin_fails_job - TMin begin_fails_job) div interval begin_fails_job = 2 \<and>
   Execute example_registry example_maxLen begin_fails_job (0, []) =
     Inr (begin_fails_job,
          (0, [EvBegin 0 (Some \<lparr>Call_Name = ''sum'', Call_Args = [''value'']\<rparr>) 10
                 (Some (Error ''begin failed'')),
               EvSend \<lparr>Name = ''m'', Tags = [''host'' \<mapsto> ''a''], Columns = [],
                       Values = [], Err = Some (Error ''begin failed'')\<rparr>])) \<and>
   0 < interval overflow_job \<and> 0 < TMin overflow_job \<and> TMin overflow_job \<le> TMax overflow_job \<and>
   in_int64 (TMax overflow_job) \<and> in_int64 (interval overflow_job) \<and>
   AggregateCalls (stmt overflow_job) \<noteq> [] \<and>
   (TMax overflow_job div interval overflow_job * interval overflow_job
      + interval overflow_job - TMin overflow_job) div interval overflow_job = 1 \<and>
   Execute example_registry example_maxLen overflow_job (0, []) =
     Inr (overflow_job,
          (0, [EvBegin 0 (Some \<lparr>Call_Name = ''sum'', Call_Args = [''value'']\<rparr>) 1 None,
               EvSend \<lparr>Name = ''m'', Tags = [''host'' \<mapsto> ''a''], Columns = [''time'', ''sum''],
                       Values = [], Err = None\<rparr>])) \<and>
   0 < interval huge_job \<and> 0 < TMin huge_job \<and> TMin huge_job \<le> TMax huge_job \<and>
   in_int64 (TMax huge_job) \<and> in_int64 (interval huge_job) \<and>
   AggregateCalls (stmt huge_job) \<noteq> [] \<and>
   (TMax huge_job div interval huge_job * interval huge_job
      + interval huge_job - TMin huge_job) div interval huge_job = 4611686018427387904 \<and>
   Execute example_registry example_maxLen huge_job (0, []) = Inl (MakeSliceLen, huge_job, (0, []))"
  by (simp add: begin_fails_job_def overflow_job_def huge_job_def example_job_def call_stmt_def example_registry_def replay_mapper_def sum_reduce_def in_int64_def example_maxLen_def
      Execute_def processAggregate_def pointCountInResult_def effective_interval_def single_bucket_def init_resultValues_def call_Begin_def call_NextInterval_def send_def add64_def sub64_def mul64_def quo64_def wrap64_def Row_zero_def Let_def upt_rec)

text \<open>
  The job of two buckets: the hypotheses hold, the call returns, no call of a mapper fails,
  and the row carries no error and the two value rows of the formula.
\<close>

theorem Execute_bucket_count_witness:
  "0 < interval scenario3_job \<and> 0 < TMin scenario3_job \<and> TMin scenario3_job \<le> TMax scenario3_job \<and>
   in_int64 (TMax scenario3_job) \<and> in_int64 (interval scenario3_job) \<and>
   AggregateCalls (stmt scenario3_job) \<noteq> [] \<and>
   TMax scenario3_job div interval scenario3_job * interval scenario3_job
      + interval scenario3_job - TMin scenario3_job < 2 ^ 63 \<and>
   reducers_ok example_registry scenario3_job \<and>
   (TMax scenario3_job div interval scenario3_job * interval scenario3_job
      + interval scenario3_job - TMin scenario3_job) div interval scenario3_job = 2 \<and>
   2 \<le> example_maxLen \<and>
   (\<exists>m' s'. Execute example_registry example_maxLen scenario3_job (0, []) = Inr (m', s')) \<and>
   Execute example_registry example_maxLen scenario3_job (0, []) =
     Inr (scenario3_job, (2, scenario3_calls @ [EvSend scenario3_row])) \<and>
   mapper_events scenario3_calls \<and> list_all (\<lambda>e. \<not> failed e) scenario3_calls \<and>
   Err scenario3_row = None \<and>
   int (length (Values scenario3_row)) =
     (TMax scenario3_job div interval scenario3_job * interval scenario3_job
        + interval scenario3_job - TMin scenario3_job) div interval scenario3_job \<and>
   mappers_never_fail scenario3_job \<and>
   (\<exists>m' s' evs row. Execute example_registry example_maxLen scenario3_job (0, []) = Inr (m', s') \<and>
      snd s' = snd (0::nat, []::event list) @ evs @ [EvSend row] \<and> mapper_events evs \<and>
      Err row = None \<and> int (length (Values row)) = 2)"
proof -
  have h1: "0 < interval scenario3_job" by (simp add: scenario3_job_def example_job_def call_stmt_def)
  have h2: "0 < TMin scenario3_job" by (simp add: scenario3_job_def example_job_def call_stmt_def)
  have h3: "TMin scenario3_job \<le> TMax scenario3_job" by (simp add: scenario3_job_def example_job_def call_stmt_def)
  have h4: "in_int64 (TMax scenario3_job)" by (simp add: in_int64_def scenario3_job_def example_job_def call_stmt_def)
  have h5: "in_int64 (interval scenario3_job)" by (simp add: in_int64_def scenario3_job_def example_job_def call_stmt_def)
  have h6: "AggregateCalls (stmt scenario3_job) \<noteq> []" by (simp add: scenario3_job_def example_job_def call_stmt_def)
  have c: "(TMax scenario3_job div interval scenario3_job * interval scenario3_job
      + interval scenario3_job - TMin scenario3_job) div interval scenario3_job = 2"
    by (simp add: scenario3_job_def example_job_def call_stmt_def)
  have h7: "TMax scenario3_job div interval scenario3_job * interval scenario3_job
      + interval scenario3_job - TMin scenario3_job < 2 ^ 63"
    by (simp add: scenario3_job_def example_job_def call_stmt_def)
  have h8: "reducers_ok example_registry scenario3_job"
    by (simp add: reducers_ok_def scenario3_job_def example_job_def call_stmt_def example_registry_def)
  have h9: "2 \<le> example_maxLen" by (simp add: example_maxLen_def)
  have ini: "\<forall>c\<in>set (AggregateCalls (stmt scenario3_job)). snd (example_registry (Some c)) = None"
    by (simp add: scenario3_job_def example_job_def call_stmt_def example_registry_def)
  have me: "mapper_events scenario3_calls" by (simp add: mapper_events_def scenario3_calls_def)
  have nf: "\<forall>e\<in>set scenario3_calls. \<not> failed e" by (simp add: scenario3_calls_def)
  note t = Execute_bucket_count [OF h1 h2 h3 h4 h5 h6 h7, of example_registry example_maxLen "(0, [])"]
  from t h8 h9 c have a: "\<exists>m' s'. Execute example_registry example_maxLen scenario3_job (0, []) = Inr (m', s')"
    by simp
  have run: "Execute example_registry example_maxLen scenario3_job (0, []) =
     Inr (scenario3_job, (2, scenario3_calls @ [EvSend scenario3_row]))"
    using scenario3' by (simp add: scenario3_log_def)
  from t [THEN conjunct1, rule_format, OF run] obtain evs row where
    al: "snd (2::nat, scenario3_calls @ [EvSend scenario3_row]) =
           snd (0::nat, []::event list) @ evs @ [EvSend row] \<and> mapper_events evs \<and>
         (Err row = None \<longleftrightarrow>
            (\<forall>c\<in>set (AggregateCalls (stmt scenario3_job)). snd (example_registry (Some c)) = None) \<and>
            (\<forall>e\<in>set evs. \<not> failed e)) \<and>
         (case Err row of
            None \<Rightarrow> int (length (Values row)) =
                      (TMax scenario3_job div interval scenario3_job * interval scenario3_job
                         + interval scenario3_job - TMin scenario3_job) div interval scenario3_job
          | Some err \<Rightarrow> Values row = [])"
    by (elim exE)
  then have eq: "evs = scenario3_calls" "row = scenario3_row" by simp_all
  from al ini nf have e: "Err scenario3_row = None" unfolding eq by blast
  with al have n: "int (length (Values scenario3_row)) =
     (TMax scenario3_job div interval scenario3_job * interval scenario3_job
        + interval scenario3_job - TMin scenario3_job) div interval scenario3_job"
    unfolding eq by simp
  from nf have nf': "list_all (\<lambda>e. \<not> failed e) scenario3_calls" by (simp add: list_all_iff)
  have mf: "mappers_never_fail scenario3_job"
    by (auto simp: mappers_never_fail_def scenario3_job_def example_job_def replay_mapper_def
        less_Suc_eq numeral_2_eq_2)
  have ini': "\<forall>c\<in>set (AggregateCalls (stmt scenario3_job)).
      snd (example_registry (Some c)) = None \<and> fst (example_registry (Some c)) \<noteq> None"
    by (simp add: scenario3_job_def example_job_def call_stmt_def example_registry_def)
  from h9 c have le: "(TMax scenario3_job div interval scenario3_job * interval scenario3_job
      + interval scenario3_job - TMin scenario3_job) div interval scenario3_job \<le> example_maxLen"
    by simp
  from t [THEN conjunct2, THEN conjunct2, rule_format, OF conjI [OF mf conjI [OF ini' le]]]
  have hl: "\<exists>m' s' evs row. Execute example_registry example_maxLen scenario3_job (0, []) = Inr (m', s') \<and>
      snd s' = snd (0::nat, []::event list) @ evs @ [EvSend row] \<and> mapper_events evs \<and>
      Err row = None \<and> int (length (Values row)) = 2"
    by (simp only: c)
  from h1 h2 h3 h4 h5 h6 h7 h8 c h9 a run me nf' e n mf hl show ?thesis by (intro conjI)
qed

subsection \<open>C2: the row of a failed reducer initialisation\<close>

text \<open>
  Claim C2 (row of a failed reducer initialisation). The job below has the name
  \<^verbatim>\<open>m\<close> and the tags \<^verbatim>\<open>host=a\<close>; the registry
  does not know its aggregate call. \<^verbatim>\<open>Execute\<close> sends one row and calls
  no mapper, but the row is \<^verbatim>\<open>&Row{Err: err}\<close>: its
  \<^verbatim>\<open>Name\<close> is empty and it has no \<^verbatim>\<open>Tags\<close>,
  where the claim has both taken from the job.
\<close>

theorem Execute_reducer_init_failure_row:
  "MeasurementName unknown_call_job = ''m'' \<and>
   TagSet_Tags (TagSet unknown_call_job) = [''host'' \<mapsto> ''a''] \<and>
   Execute example_registry example_maxLen unknown_call_job (0, []) =
     Inr (unknown_call_job,
          (0, [EvSend \<lparr>Name = [], Tags = Map.empty, Columns = [], Values = [],
                       Err = Some (Error ''function not implemented'')\<rparr>]))"
  by (simp add: unknown_call_job_def example_job_def call_stmt_def example_registry_def Execute_def send_def Row_zero_def)

subsection \<open>C3: the order of the rows\<close>

text \<open>
  Claim C3 (row ordering), amended. \<^verbatim>\<open>Plan\<close> keeps the pointers in the
  order in which \<^verbatim>\<open>Tx.CreateMapReduceJobs\<close> returned them and leaves
  every job its name and its tag set, and \<^verbatim>\<open>Executor.Execute\<close> sends
  one row for each job in that order: the \<open>i\<close>-th row sent is a row of the
  \<open>i\<close>-th job returned. The rows are in the order of
  \<^verbatim>\<open>TagSet.Key\<close> when the transaction returns the jobs in that order;
  the engine does not sort.
\<close>

theorem rows_follow_job_order:
  assumes "DB_Begin p = (tx, None)"
    and "Normalize (sel\<lparr>Condition := Reduce (Now p) (Condition sel)\<rparr>) = ((iv, tags), None)"
    and "CreateMapReduceJobs tx (sel\<lparr>Condition := Reduce (Now p) (Condition sel)\<rparr>) tags h =
           ((js, hc), None)"
  shows "\<exists>e hp. Plan Reduce Normalize p sel h = Inr (e, hp) \<and> jobs e = js \<and>
           map (\<lambda>j. MeasurementName (hp j)) js = map (\<lambda>j. MeasurementName (hc j)) js \<and>
           map (\<lambda>j. TagSet (hp j)) js = map (\<lambda>j. TagSet (hc j)) js \<and>
           (\<forall>s c'. Executor_Execute irf maxLen e (hp, s) = Inr (None, c') \<longrightarrow>
              (\<exists>rows. sent (snd (snd c')) = sent (snd s) @ rows \<and> length rows = length js \<and>
                 (\<forall>i<length js. row_of_job irf sel (hc (js ! i)) (rows ! i))))"
proof -
  let ?stmt1 = "sel\<lparr>Condition := Reduce (Now p) (Condition sel)\<rparr>"
  let ?e = "\<lparr>Executor_tx = tx, Executor_stmt = ?stmt1, jobs = js, Executor_interval = iv\<rparr>"
  let ?hp = "imprint_loop iv ?stmt1 js hc"
  have plan: "Plan Reduce Normalize p sel h = Inr (?e, ?hp)"
    using assms by (simp add: Plan_def Let_def)
  have je: "jobs ?e = js" by simp
  have n: "map (\<lambda>j. MeasurementName (?hp j)) js = map (\<lambda>j. MeasurementName (hc j)) js"
    by (simp add: imprint_loop_at)
  have t: "map (\<lambda>j. TagSet (?hp j)) js = map (\<lambda>j. TagSet (hc j)) js"
    by (simp add: imprint_loop_at)
  have r: "\<forall>s c'. Executor_Execute irf maxLen ?e (?hp, s) = Inr (None, c') \<longrightarrow>
              (\<exists>rows. sent (snd (snd c')) = sent (snd s) @ rows \<and> length rows = length js \<and>
                 (\<forall>i<length js. row_of_job irf sel (hc (js ! i)) (rows ! i)))"
  proof (intro allI impI)
    fix s c' assume "Executor_Execute irf maxLen ?e (?hp, s) = Inr (None, c')"
    from Executor_Execute_rows [OF this] obtain rows where
      a: "sent (snd (snd c')) = sent (snd s) @ rows" and b: "length rows = length js" and
      c: "\<forall>i<length js. row_of_job irf (stmt (?hp (js ! i))) (?hp (js ! i)) (rows ! i)"
      by auto
    have "\<forall>i<length js. row_of_job irf sel (hc (js ! i)) (rows ! i)"
    proof (intro allI impI)
      fix i assume i: "i < length js"
      with c have "row_of_job irf (stmt (?hp (js ! i))) (?hp (js ! i)) (rows ! i)" by blast
      with i show "row_of_job irf sel (hc (js ! i)) (rows ! i)"
        by (simp add: row_of_job_def imprint_loop_at)
    qed
    with a b show "\<exists>rows. sent (snd (snd c')) = sent (snd s) @ rows \<and> length rows = length js \<and>
                 (\<forall>i<length js. row_of_job irf sel (hc (js ! i)) (rows ! i))"
      by blast
  qed
  from plan je n t r show ?thesis by blast
qed

text \<open>
  The transaction below returns the job with key \<^verbatim>\<open>b\<close> before the one
  with key \<^verbatim>\<open>a\<close>, which \<^verbatim>\<open>MapReduceJobs.Less\<close>
  puts first; the rows are sent in the order returned, not in the order of the keys.
\<close>

theorem row_order_counterexample:
  "CreateMapReduceJobs (example_tx [job_b, job_a]) (call_stmt ''sum'') [] blank_store =
     (([0, 1], store_b_a), None) \<and>
   store_b_a 0 = job_b \<and> store_b_a 1 = job_a \<and>
   TagSet_Key (TagSet job_b) = ''b'' \<and> TagSet_Key (TagSet job_a) = ''a'' \<and>
   bytes_Compare ''b'' ''a'' = 1 \<and> Less [job_b, job_a] 1 0 = Inr True \<and>
   Plan example_Reduce example_Normalize (example_planner [job_b, job_a]) (call_stmt ''sum'')
     blank_store = Inr (executor_b_a, store_b_a) \<and>
   Executor_Execute example_registry example_maxLen executor_b_a (store_b_a, (0, [])) =
     Inr (None, (store_b_a_done, (1, log_b_a))) \<and>
   sent log_b_a = [row_b, row_a] \<and>
   Tags row_b = TagSet_Tags (TagSet job_b) \<and> Tags row_a = TagSet_Tags (TagSet job_a)"
proof -
  have a: "store_b_a 0 = job_b" "store_b_a 1 = job_a" by (simp_all add: store_b_a_def)
  have b: "TagSet_Key (TagSet job_b) = ''b''" "TagSet_Key (TagSet job_a) = ''a''"
    "bytes_Compare ''b'' ''a'' = 1" "Less [job_b, job_a] 1 0 = Inr True"
    by (simp_all add: job_a_def job_b_def example_job_def Less_def Key_def)
  have c: "sent log_b_a = [row_b, row_a]" by (simp add: log_b_a_def)
  have d: "Tags row_b = TagSet_Tags (TagSet job_b)" "Tags row_a = TagSet_Tags (TagSet job_a)"
    by (simp_all add: row_a_def row_b_def job_a_def job_b_def example_job_def)
  from create_b_a a b plan_b_a run_b_a c d show ?thesis by (intro conjI)
qed

text \<open>
  The two jobs returned with key \<^verbatim>\<open>b\<close> first: the first row is the one
  of that job.
\<close>

theorem rows_follow_job_order_witness:
  "DB_Begin (example_planner [job_b, job_a]) = (example_tx [job_b, job_a], None) \<and>
   CreateMapReduceJobs (example_tx [job_b, job_a]) (call_stmt ''sum'') [] blank_store =
     (([0, 1], store_b_a), None) \<and>
   store_b_a 0 = job_b \<and> store_b_a 1 = job_a \<and>
   sent log_b_a = [row_b, row_a] \<and>
   row_of_job example_registry (call_stmt ''sum'') job_b row_b \<and>
   row_of_job example_registry (call_stmt ''sum'') job_a row_a"
proof -
  let ?p = "example_planner [job_b, job_a]"
  let ?st = "call_stmt ''sum''"
  have h1: "DB_Begin ?p = (example_tx [job_b, job_a], None)" by (simp add: example_planner_def)
  have st: "?st\<lparr>Condition := example_Reduce (Now ?p) (Condition ?st)\<rparr> = ?st"
    by (simp add: example_Reduce_def)
  have h2: "example_Normalize (?st\<lparr>Condition := example_Reduce (Now ?p) (Condition ?st)\<rparr>) = ((0, []), None)"
    by (simp add: example_Normalize_def)
  have h3: "CreateMapReduceJobs (example_tx [job_b, job_a])
        (?st\<lparr>Condition := example_Reduce (Now ?p) (Condition ?st)\<rparr>) [] blank_store =
        (([0, 1], store_b_a), None)"
    using create_b_a by (simp only: st)
  have a: "store_b_a 0 = job_b" "store_b_a 1 = job_a" by (simp_all add: store_b_a_def)
  from rows_follow_job_order [where p = ?p and tx = "example_tx [job_b, job_a]" and
      Normalize = example_Normalize and Reduce = example_Reduce and sel = ?st and iv = 0 and
      tags = "[]" and js = "[0, 1]" and h = blank_store and hc = store_b_a and
      irf = example_registry and maxLen = example_maxLen,
      OF h1 h2 h3] obtain e h2 where
    e: "Plan example_Reduce example_Normalize ?p ?st blank_store = Inr (e, h2)" and
    r: "\<forall>s c'. Executor_Execute example_registry example_maxLen e (h2, s) = Inr (None, c') \<longrightarrow>
          (\<exists>rows. sent (snd (snd c')) = sent (snd s) @ rows \<and> length rows = length [0::nat, 1] \<and>
             (\<forall>i<length [0::nat, 1]. row_of_job example_registry ?st (store_b_a ([0, 1] ! i)) (rows ! i)))"
    by blast
  from e plan_b_a have "e = executor_b_a" "h2 = store_b_a" by simp_all
  with r run_b_a obtain rows where
    rows: "sent (snd (snd (store_b_a_done, (1::nat, log_b_a)))) = sent (snd (0::nat, [])) @ rows" and
    all: "\<forall>i<length [0::nat, 1]. row_of_job example_registry ?st (store_b_a ([0, 1] ! i)) (rows ! i)"
    by blast
  have s: "sent log_b_a = [row_b, row_a]" by (simp add: log_b_a_def)
  with rows have "rows = [row_b, row_a]" by simp
  with all a have "row_of_job example_registry ?st job_b row_b" "row_of_job example_registry ?st job_a row_a"
    by force+
  with h1 create_b_a a s show ?thesis by (intro conjI)
qed

subsection \<open>C4: raw results without a bucket\<close>

text \<open>
  Claim C4 (empty raw result). With no bucket at all,
  \<^verbatim>\<open>processRawResults\<close> does not return the empty row of the claim: the
  guard is entered, and its first statement indexes
  \<^verbatim>\<open>resultValues[0]\<close>.
\<close>

theorem processRawResults_empty_panics:
  "processRawResults m [] = Inl IndexOutOfRange"
  by (simp add: processRawResults_def Let_def)

text \<open>
  The other half of the claim holds: a first bucket that does not have exactly two entries
  gives the row with the name, the tags and the columns, no values and no error.
\<close>

lemma processRawResults_short_bucket:
  "rv \<noteq> [] \<Longrightarrow> length (hd rv) \<noteq> 2 \<Longrightarrow>
   processRawResults m rv = Inr \<lparr>Name = MeasurementName m, Tags = TagSet_Tags (TagSet m),
      Columns = raw_Columns (stmt m), Values = [], Err = None\<rparr>"
  by (simp add: processRawResults_def raw_Columns_def Let_def)

subsection \<open>C5: the columns of an aggregate row\<close>

text \<open>
  Claim C5 (column count). When \<^verbatim>\<open>Execute\<close> of a job with at least one
  aggregate call returns and the row it sent carries no error, the row has one column more
  than the statement has aggregate calls, the first column is \<^verbatim>\<open>time\<close>,
  column \<open>i + 1\<close> is the name of the \<open>i\<close>-th call, and every value row
  is as long as the columns.
\<close>

theorem Execute_columns:
  assumes "AggregateCalls (stmt m) \<noteq> []" "Execute irf maxLen m s = Inr (m', s')"
    "sent (snd s') = sent (snd s) @ [row]" "Err row = None"
  shows "length (Columns row) = 1 + length (AggregateCalls (stmt m)) \<and>
         Columns row ! 0 = ''time'' \<and>
         (\<forall>i<length (AggregateCalls (stmt m)).
            Columns row ! (i + 1) = Call_Name (AggregateCalls (stmt m) ! i)) \<and>
         (\<forall>vr\<in>set (Values row). length vr = length (Columns row))"
proof -
  from Execute_success_row [OF assms] obtain rfs rv s1 where
    init: "init_loop irf (AggregateCalls (stmt m)) = Inr rfs" and
    ra: "run_aggregates irf m rfs s = Inr (Inr rv, s1)" and
    row: "row = \<lparr>Name = MeasurementName m, Tags = TagSet_Tags (TagSet m),
                  Columns = ''time'' # map Call_Name (AggregateCalls (stmt m)),
                  Values = rv, Err = None\<rparr>"
    by blast
  note sh = run_aggregates_shape [OF ra init assms(1)]
  have "\<forall>vr\<in>set rv. length vr = 1 + length (AggregateCalls (stmt m))"
  proof
    fix vr assume "vr \<in> set rv"
    then obtain i where "i < length rv" "vr = rv ! i" by (auto simp: in_set_conv_nth)
    with sh(2) show "length vr = 1 + length (AggregateCalls (stmt m))" by auto
  qed
  with row show ?thesis by simp
qed

text \<open>
  The row of the job of two buckets.
\<close>

theorem Execute_columns_witness:
  "length (Columns scenario3_row) = 2 \<and> Columns scenario3_row ! 0 = ''time'' \<and>
   Columns scenario3_row ! 1 = ''sum'' \<and>
   length (Values scenario3_row ! 0) = 2 \<and> length (Values scenario3_row ! 1) = 2"
proof -
  have h1: "AggregateCalls (stmt scenario3_job) \<noteq> []" by (simp add: scenario3_job_def example_job_def call_stmt_def)
  have h3: "sent (snd (2::nat, scenario3_log)) = sent (snd (0::nat, [])) @ [scenario3_row]"
    by (simp add: scenario3_log_def scenario3_calls_def)
  have h4: "Err scenario3_row = None" by (simp add: scenario3_row_def)
  from Execute_columns [OF h1 scenario3' h3 h4]
  show ?thesis by (simp add: scenario3_job_def example_job_def call_stmt_def scenario3_row_def)
qed

subsection \<open>C6: the times of the buckets\<close>

text \<open>
  Claim C6 (time ordering). For a job with at least one aggregate call whose times are
  \<^verbatim>\<open>int64\<close> values with \<open>TMin \<le> TMax\<close> and a bucket
  width that is not negative: when \<^verbatim>\<open>Execute\<close> returns and the row it
  sent carries no error, value row \<open>i\<close> starts with the UTC time of
  \<open>TMin + i * I\<close>, \<open>I\<close> the effective interval, and when
  \<open>I > 0\<close> these times are strictly ascending in \<open>i\<close>. The sum is the
  mathematical one: no bucket time of a returned row wraps around.
\<close>

theorem Execute_bucket_times:
  assumes "AggregateCalls (stmt m) \<noteq> []" "Execute irf maxLen m s = Inr (m', s')"
    "sent (snd s') = sent (snd s) @ [row]" "Err row = None"
    and "times_in_range m"
  shows "(\<forall>i<length (Values row).
            Values row ! i ! 0 = VTime (TMin m + int i * effective_interval m)) \<and>
         (0 < effective_interval m \<longrightarrow>
            (\<forall>i j. i < j \<and> j < length (Values row) \<longrightarrow>
               (\<exists>ti tj. Values row ! i ! 0 = VTime ti \<and> Values row ! j ! 0 = VTime tj \<and> ti < tj)))"
proof -
  from Execute_success_row [OF assms(1-4)] obtain rfs rv s1 where
    init: "init_loop irf (AggregateCalls (stmt m)) = Inr rfs" and
    ra: "run_aggregates irf m rfs s = Inr (Inr rv, s1)" and
    row: "row = \<lparr>Name = MeasurementName m, Tags = TagSet_Tags (TagSet m),
                  Columns = ''time'' # map Call_Name (AggregateCalls (stmt m)),
                  Values = rv, Err = None\<rparr>"
    by blast
  note sh = run_aggregates_shape [OF ra init assms(1)]
  have a: "\<forall>i<length (Values row). Values row ! i ! 0 = VTime (TMin m + int i * effective_interval m)"
  proof (intro allI impI)
    fix i assume "i < length (Values row)"
    with row have i: "i < length rv" by simp
    with sh(1) have "int i < pointCountInResult m" by simp
    from bucket_time_math [OF assms(5) this] sh(2) i row
    show "Values row ! i ! 0 = VTime (TMin m + int i * effective_interval m)" by auto
  qed
  have b: "0 < effective_interval m \<longrightarrow>
            (\<forall>i j. i < j \<and> j < length (Values row) \<longrightarrow>
               (\<exists>ti tj. Values row ! i ! 0 = VTime ti \<and> Values row ! j ! 0 = VTime tj \<and> ti < tj))"
  proof (intro impI allI)
    fix i j assume pos: "0 < effective_interval m" and ij: "i < j \<and> j < length (Values row)"
    from ij a have "Values row ! i ! 0 = VTime (TMin m + int i * effective_interval m)"
      "Values row ! j ! 0 = VTime (TMin m + int j * effective_interval m)"
      by simp_all
    moreover from ij pos have "TMin m + int i * effective_interval m < TMin m + int j * effective_interval m"
      by simp
    ultimately show "\<exists>ti tj. Values row ! i ! 0 = VTime ti \<and> Values row ! j ! 0 = VTime tj \<and> ti < tj"
      by blast
  qed
  from a b show ?thesis by blast
qed

text \<open>
  The two buckets start at 10 and at 20.
\<close>

theorem Execute_bucket_times_witness:
  "times_in_range scenario3_job \<and> Values scenario3_row ! 0 ! 0 = VTime 10 \<and>
   Values scenario3_row ! 1 ! 0 = VTime 20"
proof -
  have h1: "AggregateCalls (stmt scenario3_job) \<noteq> []" by (simp add: scenario3_job_def example_job_def call_stmt_def)
  have h3: "sent (snd (2::nat, scenario3_log)) = sent (snd (0::nat, [])) @ [scenario3_row]"
    by (simp add: scenario3_log_def scenario3_calls_def)
  have h4: "Err scenario3_row = None" by (simp add: scenario3_row_def)
  have h5: "times_in_range scenario3_job" by (simp add: times_in_range_def in_int64_def scenario3_job_def example_job_def call_stmt_def)
  from Execute_bucket_times [OF h1 scenario3' h3 h4 h5] h5
  show ?thesis by (simp add: scenario3_job_def example_job_def call_stmt_def scenario3_row_def)
qed

subsection \<open>C7: one row for each call\<close>

text \<open>
  Claim C7 (one row for each call), amended. Whatever the mappers and the reducers do, a call
  of \<^verbatim>\<open>Execute\<close> sends at most one row: a call that returns has sent
  exactly one, as its last effect, and a call that panics has sent none. The call returns, for
  every behaviour of the mappers, under the conditions of \<open>no_panic\<close>.
\<close>

theorem Execute_sends_exactly_one_row:
  "(\<forall>m' s'. Execute irf maxLen m s = Inr (m', s') \<longrightarrow>
      (\<exists>evs row. snd s' = snd s @ evs @ [EvSend row] \<and> sent evs = [])) \<and>
   (\<forall>p m' s'. Execute irf maxLen m s = Inl (p, m', s') \<longrightarrow>
      (\<exists>evs. snd s' = snd s @ evs \<and> sent evs = [])) \<and>
   (no_panic irf maxLen m \<longrightarrow> (\<exists>m' s'. Execute irf maxLen m s = Inr (m', s')))"
proof (intro conjI allI impI)
  fix m' s' assume "Execute irf maxLen m s = Inr (m', s')"
  from Execute_one_send [OF this] obtain evs row where
    "snd s' = snd s @ evs @ [EvSend row]" "mapper_events evs" by blast
  then have "snd s' = snd s @ evs @ [EvSend row] \<and> sent evs = []"
    by (simp add: mapper_events_sent)
  then show "\<exists>evs row. snd s' = snd s @ evs @ [EvSend row] \<and> sent evs = []" by blast
next
  fix p m' s' assume "Execute irf maxLen m s = Inl (p, m', s')"
  from Execute_panic_no_send [OF this] obtain evs where
    "snd s' = snd s @ evs" "mapper_events evs" by blast
  then have "snd s' = snd s @ evs \<and> sent evs = []" by (simp add: mapper_events_sent)
  then show "\<exists>evs. snd s' = snd s @ evs \<and> sent evs = []" by blast
next
  assume "no_panic irf maxLen m"
  then show "\<exists>m' s'. Execute irf maxLen m s = Inr (m', s')" by (rule Execute_total)
qed

text \<open>
  Without the amendment the claim fails at a call that panics. The first job below is inside
  the data model (\<^verbatim>\<open>int64\<close> times, \<open>0 < TMin\<close>
  \<open>\<le> TMax\<close>, \<open>I > 0\<close>) and its one aggregate call is known to the
  registry; the upper edge of its last bucket wraps around, the count is \<open>-1\<close>,
  and \<^verbatim>\<open>make\<close> panics: the call has sent no row and called no mapper.
  The second is the raw job whose mapper returns a record without a value: the call panics in
  \<^verbatim>\<open>processRawResults\<close>, after its calls of the mapper, and has sent no
  row.
\<close>

theorem one_row_counterexample:
  "in_int64 (TMin wrap_job) \<and> in_int64 (TMax wrap_job) \<and> in_int64 (interval wrap_job) \<and>
   0 < TMin wrap_job \<and> TMin wrap_job \<le> TMax wrap_job \<and> 0 < interval wrap_job \<and>
   map Call_Name (AggregateCalls (stmt wrap_job)) = [''sum''] \<and>
   pointCountInResult wrap_job = - 1 \<and>
   Execute example_registry example_maxLen wrap_job (0, []) = Inl (MakeSliceLen, wrap_job, (0, [])) \<and>
   AggregateCalls (stmt raw_nil_job) = [] \<and>
   Execute example_registry example_maxLen raw_nil_job (0, []) =
     Inl (InterfaceConversion, raw_nil_job\<lparr>interval := 100\<rparr>,
          (1, [EvBegin 0 None 0 None, EvNextInterval 0 100 None])) \<and>
   sent [EvBegin 0 None 0 None, EvNextInterval 0 100 None] = []"
  by (simp add: wrap_job_def raw_nil_job_def example_job_def call_stmt_def raw_stmt_def raw_Columns_def
      example_registry_def replay_mapper_def sum_reduce_def raw_reduce_def in_int64_def example_maxLen_def
      processRawResults_def raw_vals_def
      Execute_def processAggregate_def pointCountInResult_def effective_interval_def single_bucket_def init_resultValues_def call_Begin_def call_NextInterval_def send_def add64_def sub64_def mul64_def quo64_def wrap64_def Row_zero_def Let_def upt_rec)

text \<open>
  The job of two buckets and the raw job of one selected name meet the conditions, return, and
  their logs end with the one send after the calls of the mapper; the job whose count is
  negative panics with nothing sent.
\<close>

theorem Execute_sends_exactly_one_row_witness:
  "no_panic example_registry example_maxLen scenario3_job \<and>
   no_panic example_registry example_maxLen raw_job \<and>
   (\<exists>m' s'. Execute example_registry example_maxLen scenario3_job (0, []) = Inr (m', s')) \<and>
   (\<exists>m' s'. Execute example_registry example_maxLen raw_job (0, []) = Inr (m', s')) \<and>
   Execute example_registry example_maxLen scenario3_job (0, []) =
     Inr (scenario3_job, (2, scenario3_calls @ [EvSend scenario3_row])) \<and>
   Execute example_registry example_maxLen raw_job (0, []) =
     Inr (raw_job\<lparr>interval := 100\<rparr>, (1, raw_calls @ [EvSend raw_row])) \<and>
   sent scenario3_calls = [] \<and> sent raw_calls = [] \<and>
   Execute example_registry example_maxLen wrap_job (0, []) = Inl (MakeSliceLen, wrap_job, (0, [])) \<and>
   (\<exists>evs. snd (0::nat, []::event list) = snd (0::nat, []::event list) @ evs \<and> sent evs = [])"
proof -
  have h1: "no_panic example_registry example_maxLen scenario3_job"
    by (simp add: no_panic_def reducers_ok_def scenario3_job_def example_job_def call_stmt_def example_registry_def example_maxLen_def
        pointCountInResult_def single_bucket_def add64_def sub64_def mul64_def quo64_def wrap64_def Let_def)
  note h2 = raw_job_no_panic
  note t1 = Execute_sends_exactly_one_row [of example_registry example_maxLen scenario3_job "(0, [])"]
  note t2 = Execute_sends_exactly_one_row [of example_registry example_maxLen raw_job "(0, [])"]
  note t3 = Execute_sends_exactly_one_row [of example_registry example_maxLen wrap_job "(0, [])"]
  from t1 h1 have a1: "\<exists>m' s'. Execute example_registry example_maxLen scenario3_job (0, []) = Inr (m', s')"
    by blast
  from t2 h2 have a2: "\<exists>m' s'. Execute example_registry example_maxLen raw_job (0, []) = Inr (m', s')"
    by blast
  have r1: "Execute example_registry example_maxLen scenario3_job (0, []) =
     Inr (scenario3_job, (2, scenario3_calls @ [EvSend scenario3_row]))"
    using scenario3' by (simp add: scenario3_log_def)
  from t1 [THEN conjunct1, rule_format, OF r1] obtain evs1 row1 where
    "snd (2::nat, scenario3_calls @ [EvSend scenario3_row]) =
       snd (0::nat, []::event list) @ evs1 @ [EvSend row1] \<and> sent evs1 = []"
    by (elim exE)
  then have b1: "sent scenario3_calls = []" by auto
  from t2 [THEN conjunct1, rule_format, OF run_raw_job] obtain evs2 row2 where
    "snd (1::nat, raw_calls @ [EvSend raw_row]) =
       snd (0::nat, []::event list) @ evs2 @ [EvSend row2] \<and> sent evs2 = []"
    by (elim exE)
  then have b2: "sent raw_calls = []" by auto
  from t3 [THEN conjunct2, THEN conjunct1, rule_format, OF run_wrap_job]
  have c: "\<exists>evs. snd (0::nat, []::event list) = snd (0::nat, []::event list) @ evs \<and> sent evs = []" .
  from h1 h2 a1 a2 r1 run_raw_job b1 b2 run_wrap_job c show ?thesis by (intro conjI)
qed

subsection \<open>C8: an error row does not stop the executor\<close>

text \<open>
  Claim C8 (failure isolation). The emission task runs the jobs of the list in turn, whatever
  rows they send. First: when each job, executed in the state the job before it left, returns,
  then \<^verbatim>\<open>execute\<close> returns, its final state is the state the last job
  left with the channel closed and then the jobs closed, and the rows sent before the channel
  is closed are the rows of the jobs, one for each job, in the order of the list; the rows are
  free, so a job that sends an error row is followed by the execution of the next job. Second,
  the converse: when \<^verbatim>\<open>execute\<close> returns, every job of the list has
  been executed in its turn and has sent its row. Third: when
  \<^verbatim>\<open>execute\<close> does not return because a job panics, the channel has not
  been closed and fewer rows than jobs were sent. Fourth: \<^verbatim>\<open>execute\<close>
  returns, whatever rows the jobs send, when no job stands twice in the list and none can
  panic.
\<close>

theorem execute_isolates_failures:
  "(\<forall>cs rows. cs ! 0 = c \<and> jobs_run_in_turn irf maxLen (jobs e) cs rows \<longrightarrow>
      execute irf maxLen e c = Inr (close e (fst (last cs), close_out (snd (last cs)))) \<and>
      (\<exists>evs. snd (snd (close e (fst (last cs), close_out (snd (last cs))))) =
               snd (snd c) @ evs @ [EvCloseOut] @ close_events (fst c) (jobs e) \<and>
             sent evs = rows \<and> EvCloseOut \<notin> set evs)) \<and>
   (\<forall>c'. execute irf maxLen e c = Inr c' \<longrightarrow>
      (\<exists>cs rows. cs ! 0 = c \<and> jobs_run_in_turn irf maxLen (jobs e) cs rows \<and>
         c' = close e (fst (last cs), close_out (snd (last cs))))) \<and>
   (\<forall>p c'. execute irf maxLen e c = Inl (p, c') \<longrightarrow>
      (\<exists>evs. snd (snd c') = snd (snd c) @ evs \<and> EvCloseOut \<notin> set evs \<and>
         length (sent evs) < length (jobs e))) \<and>
   (distinct (jobs e) \<and> (\<forall>j\<in>set (jobs e). no_panic irf maxLen (fst c j)) \<longrightarrow>
      (\<exists>c'. execute irf maxLen e c = Inr c'))"
proof (intro conjI allI impI)
  fix cs rows
  assume a: "cs ! 0 = c \<and> jobs_run_in_turn irf maxLen (jobs e) cs rows"
  from jobs_run_in_turn_loop [of irf maxLen "jobs e" cs rows] a obtain evs where
    lp: "execute_loop irf maxLen (jobs e) c = Inr (last cs)" and
    lg: "snd (snd (last cs)) = snd (snd c) @ evs" "sent evs = rows" "EvCloseOut \<notin> set evs"
    by auto
  from lp show "execute irf maxLen e c = Inr (close e (fst (last cs), close_out (snd (last cs))))"
    by (simp add: execute_def)
  from execute_loop_rows [OF lp] have "same_jobs (fst c) (fst (last cs))" by blast
  then have "close_events (fst (last cs)) (jobs e) = close_events (fst c) (jobs e)"
    by (rule close_events_same)
  then have "snd (snd (close e (fst (last cs), close_out (snd (last cs))))) =
      snd (snd c) @ evs @ [EvCloseOut] @ close_events (fst c) (jobs e)"
    using lg(1) by (simp add: close_def close_loop_log close_out_def)
  with lg(2,3) show "\<exists>evs. snd (snd (close e (fst (last cs), close_out (snd (last cs))))) =
               snd (snd c) @ evs @ [EvCloseOut] @ close_events (fst c) (jobs e) \<and>
             sent evs = rows \<and> EvCloseOut \<notin> set evs"
    by blast
next
  fix c' assume "execute irf maxLen e c = Inr c'"
  then obtain c1 where lp: "execute_loop irf maxLen (jobs e) c = Inr c1" and
    c': "c' = close e (fst c1, close_out (snd c1))"
    by (auto simp: execute_def split: sum.splits prod.splits)
  from execute_loop_in_turn [OF lp] c'
  show "\<exists>cs rows. cs ! 0 = c \<and> jobs_run_in_turn irf maxLen (jobs e) cs rows \<and>
         c' = close e (fst (last cs), close_out (snd (last cs)))"
    by blast
next
  fix p c' assume "execute irf maxLen e c = Inl (p, c')"
  then obtain c1 where lp: "execute_loop irf maxLen (jobs e) c = Inl (p, c1)" and
    c': "c' = close e c1"
    by (auto simp: execute_def split: sum.splits prod.splits)
  from execute_loop_panic [OF lp] obtain evs where
    l: "snd (snd c1) = snd (snd c) @ evs" and nc: "EvCloseOut \<notin> set evs" and
    len: "length (sent evs) < length (jobs e)" by blast
  let ?evs = "evs @ close_events (fst c1) (jobs e)"
  have "snd (snd c') = snd (snd c) @ ?evs" using c' l by (simp add: close_def close_loop_log)
  moreover have "EvCloseOut \<notin> set ?evs" using nc close_events_no_close_out by auto
  moreover have "length (sent ?evs) < length (jobs e)"
    using len by (simp add: sent_append close_events_sent)
  ultimately show "\<exists>evs. snd (snd c') = snd (snd c) @ evs \<and> EvCloseOut \<notin> set evs \<and>
         length (sent evs) < length (jobs e)"
    by blast
next
  assume "distinct (jobs e) \<and> (\<forall>j\<in>set (jobs e). no_panic irf maxLen (fst c j))"
  then have "\<exists>c1. execute_loop irf maxLen (jobs e) c = Inr c1"
    by (intro execute_loop_total) auto
  then obtain c1 where "execute_loop irf maxLen (jobs e) c = Inr c1" by (elim exE)
  then have "execute irf maxLen e c = Inr (close e (fst c1, close_out (snd c1)))"
    by (simp add: execute_def)
  then show "\<exists>c'. execute irf maxLen e c = Inr c'" by (rule exI)
qed

text \<open>
  Two jobs, the first with a mapper whose \<^verbatim>\<open>Begin\<close> fails: they run in
  turn, the error row of the first is followed by the execution of the second and its row,
  then the channel is closed and the mappers are.
\<close>

theorem execute_isolates_failures_witness:
  "fail_ok_store 0 = begin_fails_job \<and> fail_ok_store 1 = scenario3_job \<and>
   jobs_run_in_turn example_registry example_maxLen (jobs executor_fail_ok) fail_ok_states
     [begin_fails_row, scenario3_row] \<and>
   Err begin_fails_row = Some (Error ''begin failed'') \<and> Err scenario3_row = None \<and>
   execute example_registry example_maxLen executor_fail_ok (fail_ok_store, (0, [])) =
     Inr (fail_ok_store, (2, begin_fails_log @ scenario3_log @ [EvCloseOut, EvClose 0, EvClose 0])) \<and>
   sent (begin_fails_log @ scenario3_log) = [begin_fails_row, scenario3_row] \<and>
   distinct (jobs executor_fail_ok) \<and>
   no_panic example_registry example_maxLen begin_fails_job \<and>
   no_panic example_registry example_maxLen scenario3_job \<and>
   (\<exists>c'. execute example_registry example_maxLen executor_fail_ok (fail_ok_store, (0, [])) = Inr c')"
proof -
  have s0: "fail_ok_store 0 = begin_fails_job" and s1: "fail_ok_store 1 = scenario3_job"
    by (simp_all add: fail_ok_store_def)
  have s1': "fail_ok_store (Suc 0) = scenario3_job" by (simp add: fail_ok_store_def)
  have e1: "Execute_at example_registry example_maxLen 0 (fail_ok_store, (0, [])) =
      Inr (fail_ok_store, (0, begin_fails_log))"
    by (simp add: Execute_at_def s0 run_begin_fails fun_upd_idem_iff)
  have e2: "Execute_at example_registry example_maxLen 1 (fail_ok_store, (0, begin_fails_log)) =
      Inr (fail_ok_store, (2, begin_fails_log @ scenario3_log))"
    by (simp add: Execute_at_def s1' run_scenario3_after fun_upd_idem_iff)
  have j1: "job_runs example_registry example_maxLen 0 (fail_ok_store, (0, [])) begin_fails_row
      (fail_ok_store, (0, begin_fails_log))"
    unfolding job_runs_def
  proof (intro conjI)
    show "Execute_at example_registry example_maxLen 0 (fail_ok_store, (0, [])) =
      Inr (fail_ok_store, (0, begin_fails_log))" by (rule e1)
    show "\<exists>evs. snd (snd (fail_ok_store, (0::nat, begin_fails_log))) =
        snd (snd (fail_ok_store, (0::nat, []))) @ evs @ [EvSend begin_fails_row] \<and> mapper_events evs"
      by (rule exI [of _ "[EvBegin 0 (Some sum_call) 10 (Some (Error ''begin failed''))]"])
         (simp add: begin_fails_log_def mapper_events_def)
  qed
  have j2: "job_runs example_registry example_maxLen 1 (fail_ok_store, (0, begin_fails_log)) scenario3_row
      (fail_ok_store, (2, begin_fails_log @ scenario3_log))"
    unfolding job_runs_def
  proof (intro conjI)
    show "Execute_at example_registry example_maxLen 1 (fail_ok_store, (0, begin_fails_log)) =
      Inr (fail_ok_store, (2, begin_fails_log @ scenario3_log))" by (rule e2)
    show "\<exists>evs. snd (snd (fail_ok_store, (2::nat, begin_fails_log @ scenario3_log))) =
        snd (snd (fail_ok_store, (0::nat, begin_fails_log))) @ evs @ [EvSend scenario3_row] \<and>
        mapper_events evs"
      by (rule exI [of _ scenario3_calls])
         (simp add: scenario3_log_def scenario3_calls_def mapper_events_def)
  qed
  have t: "jobs_run_in_turn example_registry example_maxLen (jobs executor_fail_ok) fail_ok_states
     [begin_fails_row, scenario3_row]"
    using j1 j2 by (simp add: jobs_run_in_turn_def executor_fail_ok_def fail_ok_states_def less_Suc_eq)
  have z: "fail_ok_states ! 0 = (fail_ok_store, (0, []))" by (simp add: fail_ok_states_def)
  have h1: "no_panic example_registry example_maxLen begin_fails_job"
    by (simp add: no_panic_def reducers_ok_def begin_fails_job_def example_job_def call_stmt_def example_registry_def example_maxLen_def
        pointCountInResult_def single_bucket_def add64_def sub64_def mul64_def quo64_def wrap64_def Let_def)
  have h2: "no_panic example_registry example_maxLen scenario3_job"
    by (simp add: no_panic_def reducers_ok_def scenario3_job_def example_job_def call_stmt_def example_registry_def example_maxLen_def
        pointCountInResult_def single_bucket_def add64_def sub64_def mul64_def quo64_def wrap64_def Let_def)
  have ds: "distinct (jobs executor_fail_ok)" by (simp add: executor_fail_ok_def)
  have h: "distinct (jobs executor_fail_ok) \<and>
      (\<forall>j\<in>set (jobs executor_fail_ok). no_panic example_registry example_maxLen (fst (fail_ok_store, (0::nat, []::event list)) j))"
    using h1 h2 s0 s1 s1' by (simp add: executor_fail_ok_def)
  note th = execute_isolates_failures [of "(fail_ok_store, (0, []))" example_registry example_maxLen executor_fail_ok]
  from th [THEN conjunct1, rule_format, of fail_ok_states "[begin_fails_row, scenario3_row]"] z t
  have "execute example_registry example_maxLen executor_fail_ok (fail_ok_store, (0, [])) =
      Inr (close executor_fail_ok (fst (last fail_ok_states), close_out (snd (last fail_ok_states))))"
    by blast
  moreover have "close executor_fail_ok (fst (last fail_ok_states), close_out (snd (last fail_ok_states))) =
      (fail_ok_store, (2, begin_fails_log @ scenario3_log @ [EvCloseOut, EvClose 0, EvClose 0]))"
    by (simp add: fail_ok_states_def executor_fail_ok_def close_def Close_at_def Close_def call_Close_def close_out_def
        s0 s1 s1' begin_fails_job_def scenario3_job_def example_job_def replay_mapper_def)
  ultimately have a: "execute example_registry example_maxLen executor_fail_ok (fail_ok_store, (0, [])) =
      Inr (fail_ok_store, (2, begin_fails_log @ scenario3_log @ [EvCloseOut, EvClose 0, EvClose 0]))"
    by simp
  from th [THEN conjunct2, THEN conjunct2, THEN conjunct2, rule_format, OF h]
  have b: "\<exists>c'. execute example_registry example_maxLen executor_fail_ok (fail_ok_store, (0, [])) = Inr c'" .
  have c: "sent (begin_fails_log @ scenario3_log) = [begin_fails_row, scenario3_row]"
    by (simp add: begin_fails_log_def scenario3_log_def scenario3_calls_def)
  have d: "Err begin_fails_row = Some (Error ''begin failed'')" "Err scenario3_row = None"
    by (simp_all add: begin_fails_row_def scenario3_row_def)
  from s0 s1 t d a c ds h1 h2 b show ?thesis by (intro conjI)
qed

subsection \<open>C9: raw rows of a single value\<close>

text \<open>
  Claim C9 (raw rows of a single value), amended. When the selected names do not hold
  \<^verbatim>\<open>time\<close>, every row \<^verbatim>\<open>processRawResults\<close>
  returns has \<^verbatim>\<open>time\<close> put in front of them as its columns. When the
  columns are two and the first bucket is a time and a sequence of raw records, each with a
  value that is not nil, the value rows are \<open>[utc(timestamp), value]\<close>, one for
  each record, in the order of the records.
\<close>

theorem processRawResults_single_value:
  "(''time'' \<notin> set (NamesInSelect (stmt m)) \<longrightarrow>
      (\<forall>rv row. processRawResults m rv = Inr row \<longrightarrow>
         Columns row = ''time'' # NamesInSelect (stmt m))) \<and>
   (length (raw_Columns (stmt m)) = 2 \<and> (\<forall>v\<in>set recs. snd v \<noteq> VNil) \<longrightarrow>
      processRawResults m ([t, VRaw recs] # rest) =
        Inr \<lparr>Name = MeasurementName m, Tags = TagSet_Tags (TagSet m),
             Columns = raw_Columns (stmt m),
             Values = map (\<lambda>v. [VTime (fst v), snd v]) recs, Err = None\<rparr>)"
proof (intro conjI impI allI)
  fix rv row
  assume "''time'' \<notin> set (NamesInSelect (stmt m))" "processRawResults m rv = Inr row"
  with processRawResults_Columns [of m rv row] show "Columns row = ''time'' # NamesInSelect (stmt m)"
    by (simp add: raw_Columns_def)
next
  assume a: "length (raw_Columns (stmt m)) = 2 \<and> (\<forall>v\<in>set recs. snd v \<noteq> VNil)"
  then have "raw_loop (raw_Columns (stmt m)) True recs [] = Inr (map (\<lambda>v. [VTime (fst v), snd v]) recs)"
    by (simp add: raw_loop_single)
  with a show "processRawResults m ([t, VRaw recs] # rest) =
        Inr \<lparr>Name = MeasurementName m, Tags = TagSet_Tags (TagSet m),
             Columns = raw_Columns (stmt m),
             Values = map (\<lambda>v. [VTime (fst v), snd v]) recs, Err = None\<rparr>"
    by (auto simp: processRawResults_def raw_Columns_def Let_def split: if_splits)
qed

text \<open>
  Without the amendment the claim fails at a record whose value is the nil interface: the
  single-value path asserts \<^verbatim>\<open>v.values.(interface{})\<close>, which panics on
  nil, so no row is returned, by \<^verbatim>\<open>processRawResults\<close> or by
  \<^verbatim>\<open>Execute\<close>.
\<close>

theorem raw_single_value_counterexample:
  "''time'' \<notin> set (NamesInSelect (stmt raw_nil_job)) \<and>
   length (raw_Columns (stmt raw_nil_job)) = 2 \<and>
   processRawResults raw_nil_job [[VTime 0, VRaw [(5, VNil)]]] = Inl InterfaceConversion \<and>
   Execute example_registry example_maxLen raw_nil_job (0, []) =
     Inl (InterfaceConversion, raw_nil_job\<lparr>interval := 100\<rparr>,
          (1, [EvBegin 0 None 0 None, EvNextInterval 0 100 None]))"
  by (simp add: raw_nil_job_def example_job_def raw_stmt_def raw_Columns_def example_registry_def
      replay_mapper_def raw_reduce_def processRawResults_def raw_vals_def example_maxLen_def
      Execute_def processAggregate_def pointCountInResult_def effective_interval_def
      single_bucket_def init_resultValues_def call_Begin_def call_NextInterval_def send_def
      add64_def sub64_def mul64_def wrap64_def Let_def upt_rec)

text \<open>
  One selected name and two records, as in the raw scenario of a single value.
\<close>

theorem processRawResults_single_value_witness:
  "''time'' \<notin> set (NamesInSelect (stmt raw_job)) \<and>
   length (raw_Columns (stmt raw_job)) = 2 \<and>
   processRawResults raw_job [[VTime 0, VRaw [(5, VStr ''a''), (9, VStr ''b'')]]] =
     Inr \<lparr>Name = ''m'', Tags = [''host'' \<mapsto> ''a''], Columns = [''time'', ''v''],
          Values = [[VTime 5, VStr ''a''], [VTime 9, VStr ''b'']], Err = None\<rparr>"
proof -
  have a: "''time'' \<notin> set (NamesInSelect (stmt raw_job))" by (simp add: raw_job_def example_job_def raw_stmt_def)
  have b: "length (raw_Columns (stmt raw_job)) = 2 \<and>
           (\<forall>v\<in>set [(5, VStr ''a''), (9, VStr ''b'')]. snd v \<noteq> VNil)"
    by (simp add: raw_job_def example_job_def raw_stmt_def raw_Columns_def)
  from processRawResults_single_value [of raw_job "[(5, VStr ''a''), (9, VStr ''b'')]" "VTime 0" "[]"] b
  have "processRawResults raw_job ([VTime 0, VRaw [(5, VStr ''a''), (9, VStr ''b'')]] # []) =
        Inr \<lparr>Name = MeasurementName raw_job, Tags = TagSet_Tags (TagSet raw_job),
             Columns = raw_Columns (stmt raw_job),
             Values = map (\<lambda>v. [VTime (fst v), snd v]) [(5, VStr ''a''), (9, VStr ''b'')], Err = None\<rparr>"
    by blast
  with a b show ?thesis by (simp add: raw_job_def example_job_def raw_stmt_def raw_Columns_def)
qed

subsection \<open>C10: opening a job\<close>

text \<open>
  Claim C10 (opening a job). When the \<open>k\<close>-th mapper is the first whose
  \<^verbatim>\<open>Open\<close> fails, \<^verbatim>\<open>MapReduceJob.Open\<close> has
  opened the mappers up to \<open>k\<close>, then calls \<^verbatim>\<open>Close\<close> on
  every mapper of the job, opened or not, and returns that mapper's error. When every mapper
  opens, it returns no error and closes none.
\<close>

theorem Open_closes_every_mapper_on_failure:
  "(\<forall>k err. k < length (Mappers m) \<and>
       (\<forall>i<k. fst (Mapper_Open (Mappers m ! i) (opened (take i (Mappers m)) w)) = None) \<and>
       fst (Mapper_Open (Mappers m ! k) (opened (take k (Mappers m)) w)) = Some err \<longrightarrow>
       Open m (w, lg) =
         (Some err,
          (fold Mapper_Close (Mappers m) (opened (take (Suc k) (Mappers m)) w),
           lg @ map (\<lambda>mm. EvOpen (mid mm)) (take (Suc k) (Mappers m))
              @ map (\<lambda>mm. EvClose (mid mm)) (Mappers m)))) \<and>
   ((\<forall>i<length (Mappers m).
       fst (Mapper_Open (Mappers m ! i) (opened (take i (Mappers m)) w)) = None) \<longrightarrow>
       Open m (w, lg) = (None, (opened (Mappers m) w, lg @ map (\<lambda>mm. EvOpen (mid mm)) (Mappers m))))"
proof (intro conjI allI impI)
  fix k err
  assume a: "k < length (Mappers m) \<and>
       (\<forall>i<k. fst (Mapper_Open (Mappers m ! i) (opened (take i (Mappers m)) w)) = None) \<and>
       fst (Mapper_Open (Mappers m ! k) (opened (take k (Mappers m)) w)) = Some err"
  then have "Open_loop m (Mappers m) (w, lg) =
     (Some err, Close m (opened (take (Suc k) (Mappers m)) w,
        lg @ map (\<lambda>mm. EvOpen (mid mm)) (take (Suc k) (Mappers m))))"
    by (intro Open_loop_fails_at) auto
  then show "Open m (w, lg) =
         (Some err,
          (fold Mapper_Close (Mappers m) (opened (take (Suc k) (Mappers m)) w),
           lg @ map (\<lambda>mm. EvOpen (mid mm)) (take (Suc k) (Mappers m))
              @ map (\<lambda>mm. EvClose (mid mm)) (Mappers m)))"
    by (simp add: Open_def Close_def Close_loop_eq)
next
  assume "\<forall>i<length (Mappers m).
       fst (Mapper_Open (Mappers m ! i) (opened (take i (Mappers m)) w)) = None"
  then show "Open m (w, lg) = (None, (opened (Mappers m) w, lg @ map (\<lambda>mm. EvOpen (mid mm)) (Mappers m)))"
    by (simp add: Open_def Open_loop_all_ok)
qed

text \<open>
  Three mappers, the second failing to open: two are opened, all three are closed. A job whose
  one mapper opens closes none.
\<close>

theorem Open_closes_every_mapper_on_failure_witness:
  "Open open_fails_job (0, []) =
     (Some (Error ''open failed''), (0, [EvOpen 0, EvOpen 1, EvClose 0, EvClose 1, EvClose 2])) \<and>
   Open scenario3_job (0, []) = (None, (0, [EvOpen 0]))"
proof -
  have a: "(1::nat) < length (Mappers open_fails_job) \<and>
       (\<forall>i<1. fst (Mapper_Open (Mappers open_fails_job ! i) (opened (take i (Mappers open_fails_job)) 0)) = None) \<and>
       fst (Mapper_Open (Mappers open_fails_job ! 1) (opened (take 1 (Mappers open_fails_job)) 0)) =
         Some (Error ''open failed'')"
    by (simp add: open_fails_job_def scenario3_job_def example_job_def replay_mapper_def opened_def)
  have b: "\<forall>i<length (Mappers scenario3_job).
       fst (Mapper_Open (Mappers scenario3_job ! i) (opened (take i (Mappers scenario3_job)) 0)) = None"
    by (simp add: scenario3_job_def example_job_def replay_mapper_def opened_def)
  from Open_closes_every_mapper_on_failure [of open_fails_job 0 "[]"] a
  have "Open open_fails_job (0, []) =
         (Some (Error ''open failed''),
          (fold Mapper_Close (Mappers open_fails_job) (opened (take (Suc 1) (Mappers open_fails_job)) 0),
           [] @ map (\<lambda>mm. EvOpen (mid mm)) (take (Suc 1) (Mappers open_fails_job))
              @ map (\<lambda>mm. EvClose (mid mm)) (Mappers open_fails_job)))"
    by blast
  moreover from Open_closes_every_mapper_on_failure [of scenario3_job 0 "[]"] b
  have "Open scenario3_job (0, []) =
      (None, (opened (Mappers scenario3_job) 0, [] @ map (\<lambda>mm. EvOpen (mid mm)) (Mappers scenario3_job)))"
    by blast
  ultimately show ?thesis
    by (simp add: open_fails_job_def scenario3_job_def example_job_def replay_mapper_def opened_def)
qed

end
